theory Spec2Isabelle
  imports Main
begin

section \<open>Objects, the store and the host interface\<close>

text \<open>
  The function under study is \<^verbatim>\<open>PyUFunc_CheckOverride\<close> of
  \<^verbatim>\<open>numpy/core/src/private/ufunc_override.h\<close>. Every value it handles is a
  \<^verbatim>\<open>PyObject *\<close>. A pointer is either an object whose inside the function never
  looks at (\<open>Obj\<close>: arrays, scalars, user objects, type objects, bound methods, results)
  or the address of a tuple or dictionary cell of the store (\<open>Ref\<close>). A pointer that may
  be \<^verbatim>\<open>NULL\<close> is a \<open>ptr option\<close>.
\<close>

datatype ptr = Obj nat | Ref nat

datatype cell = TupleCell "ptr list" | DictCell "string \<rightharpoonup> ptr"

type_synonym store = "cell list"

text \<open>
  The exceptions the function sets itself are a \<^verbatim>\<open>ValueError\<close> and a
  \<^verbatim>\<open>TypeError\<close> with a message; \<open>Raised\<close> is an exception set by host code
  (attribute lookup, the override call).
\<close>

datatype exn = ValueError string | TypeError string | Raised nat

text \<open>
  What one call of the C function does: \<^verbatim>\<open>return 0\<close> with \<^verbatim>\<open>*result == NULL\<close>
  (\<open>NoOverride\<close>), \<^verbatim>\<open>return 0\<close> with a result (\<open>Result\<close>), \<^verbatim>\<open>return 1\<close> with an
  exception set (\<open>Failure\<close>), or no return at all: \<open>NullDeref\<close> is the inner loop
  handing a \<^verbatim>\<open>NULL\<close> entry of \<^verbatim>\<open>with_override\<close> to \<^verbatim>\<open>PyObject_IsInstance\<close>, which reads
  the type field through its first argument.
\<close>

datatype outcome = NoOverride | Result ptr | Failure exn | NullDeref

text \<open>
  The tuple built by \<^verbatim>\<open>Py_BuildValue("OOiO", ufunc, method_name, override_pos, normal_args)\<close>.
\<close>

record override_args =
  oa_ufunc :: ptr
  oa_method :: string
  oa_pos :: nat
  oa_inputs :: ptr

text \<open>
  One executed \<^verbatim>\<open>PyObject_Call(numpy_ufunc, override_args, normal_kwds)\<close>, together with
  the operand \<^verbatim>\<open>override_obj\<close> whose attribute \<^verbatim>\<open>numpy_ufunc\<close> is.
\<close>

record call =
  call_obj :: ptr
  call_func :: ptr
  call_args :: override_args
  call_kwds :: ptr

text \<open>
  The primitives of CPython and of the numpy headers that the function calls, and the
  constant \<^verbatim>\<open>NPY_MAXARGS\<close>, none of which is defined in the file.
  \<^verbatim>\<open>PyTuple_CheckExact\<close> is the test \<^verbatim>\<open>PyTuple_GetSlice\<close> makes. The attribute name is
  always \<^verbatim>\<open>"__numpy_ufunc__"\<close>, so it is not an argument. \<^verbatim>\<open>PyObject_IsInstance\<close> returns a
  C \<^verbatim>\<open>int\<close>, which the function uses as a truth value. \<^verbatim>\<open>PyObject_GetAttrString\<close> and
  \<^verbatim>\<open>PyObject_Call\<close> return \<^verbatim>\<open>NULL\<close> with an exception set (\<open>Inl\<close>) or an object (\<open>Inr\<close>);
  the call sees the store, since what it returns may depend on the tuples and
  dictionaries it is handed.
\<close>

record host =
  NPY_MAXARGS :: nat
  PyTuple_CheckExact :: "ptr \<Rightarrow> bool"
  PyArray_CheckExact :: "ptr \<Rightarrow> bool"
  PyArray_IsAnyScalar :: "ptr \<Rightarrow> bool"
  PyObject_HasAttrString :: "ptr \<Rightarrow> bool"
  PyObject_Type :: "ptr \<Rightarrow> ptr"
  PyObject_IsInstance :: "ptr \<Rightarrow> ptr \<Rightarrow> int"
  PyObject_GetAttrString :: "ptr \<Rightarrow> exn + ptr"
  PyObject_Call :: "store \<Rightarrow> ptr \<Rightarrow> override_args \<Rightarrow> ptr \<Rightarrow> exn + ptr"
  Py_NotImplemented :: ptr

subsection \<open>Reading and writing the store\<close>

definition cell_at :: "store \<Rightarrow> nat \<Rightarrow> cell option" where
  "cell_at s a = (if a < length s then Some (s ! a) else None)"

text \<open>\<^verbatim>\<open>PyTuple_Check(p)\<close>, with the items of the tuple when it holds.\<close>

definition tuple_items :: "store \<Rightarrow> ptr \<Rightarrow> ptr list option" where
  "tuple_items s p =
     (case p of
        Obj _ \<Rightarrow> None
      | Ref a \<Rightarrow> (case cell_at s a of Some (TupleCell xs) \<Rightarrow> Some xs | _ \<Rightarrow> None))"

text \<open>\<^verbatim>\<open>kwds && PyDict_CheckExact(kwds)\<close>, with the entries of the dictionary when it holds.\<close>

definition exact_dict :: "store \<Rightarrow> ptr option \<Rightarrow> (string \<rightharpoonup> ptr) option" where
  "exact_dict s kwds =
     (case kwds of
        None \<Rightarrow> None
      | Some (Obj _) \<Rightarrow> None
      | Some (Ref a) \<Rightarrow> (case cell_at s a of Some (DictCell d) \<Rightarrow> Some d | _ \<Rightarrow> None))"

text \<open>A new object is a new cell at the end of the store; nothing is ever freed.\<close>

definition alloc :: "store \<Rightarrow> cell \<Rightarrow> ptr \<times> store" where
  "alloc s c = (Ref (length s), s @ [c])"

text \<open>
  CPython's \<^verbatim>\<open>PyTuple_GetSlice(p, low, high)\<close> for a tuple \<open>p\<close> with items \<open>xs\<close>: both
  bounds are clamped to the tuple, so no bound makes it fail; when the slice is the whole
  of an exact tuple the result is \<open>p\<close> itself (a new reference to the same object),
  otherwise a new tuple.
\<close>

definition PyTuple_GetSlice ::
  "host \<Rightarrow> store \<Rightarrow> ptr \<Rightarrow> ptr list \<Rightarrow> int \<Rightarrow> int \<Rightarrow> ptr \<times> store" where
  "PyTuple_GetSlice h s p xs low high =
     (let ilow = (if low < 0 then 0 else low);
          ihigh = (if high > int (length xs) then int (length xs) else high);
          ihigh = (if ihigh < ilow then ilow else ihigh)
      in if ilow = 0 \<and> ihigh = int (length xs) \<and> PyTuple_CheckExact h p then (p, s)
         else alloc s (TupleCell (take (nat (ihigh - ilow)) (drop (nat ilow) xs))))"

text \<open>\<^verbatim>\<open>PyDict_SetItemString(d, key, v)\<close>; the function ignores its return value.\<close>

definition PyDict_SetItemString :: "store \<Rightarrow> ptr \<Rightarrow> string \<Rightarrow> ptr \<Rightarrow> store" where
  "PyDict_SetItemString s d k v =
     (case d of
        Obj _ \<Rightarrow> s
      | Ref a \<Rightarrow>
          (case cell_at s a of
             Some (DictCell m) \<Rightarrow> s[a := DictCell (m(k \<mapsto> v))]
           | _ \<Rightarrow> s))"

section \<open>The function\<close>

subsection \<open>Candidate discovery (lines 61 to 71)\<close>

text \<open>
  The arrays \<^verbatim>\<open>with_override\<close> and \<^verbatim>\<open>with_override_pos\<close> are filled together and read
  at the same index, so entry \<open>k\<close> of the list is the pair of \<^verbatim>\<open>with_override[k]\<close>
  (\<open>None\<close> once it is set to \<^verbatim>\<open>NULL\<close>) and \<^verbatim>\<open>with_override_pos[k]\<close>; \<^verbatim>\<open>noa\<close> is the
  length of the list.
\<close>

type_synonym overrides = "(ptr option \<times> nat) list"

fun discover :: "host \<Rightarrow> nat \<Rightarrow> ptr list \<Rightarrow> overrides" where
  "discover h i [] = []"
| "discover h i (obj # rest) =
     (if PyArray_CheckExact h obj \<or> PyArray_IsAnyScalar h obj then discover h (Suc i) rest
      else if PyObject_HasAttrString h obj then (Some obj, i) # discover h (Suc i) rest
      else discover h (Suc i) rest)"

subsection \<open>Choosing an overriding argument (lines 128 to 154)\<close>

text \<open>
  The test of line 141: the types differ and \<open>other_obj\<close> is an instance of the type of
  \<open>obj\<close>.
\<close>

definition subtype_instance :: "host \<Rightarrow> ptr \<Rightarrow> ptr \<Rightarrow> bool" where
  "subtype_instance h other_obj obj =
     (PyObject_Type h other_obj \<noteq> PyObject_Type h obj \<and>
      PyObject_IsInstance h other_obj (PyObject_Type h obj) \<noteq> 0)"

text \<open>
  The inner loop over \<open>j = i + 1, ..., noa - 1\<close>, given the entries from \<open>i + 1\<close> on:
  \<open>Some True\<close> when it sets \<^verbatim>\<open>override_obj = NULL\<close> and breaks, \<open>Some False\<close> when it runs
  to the end. It does not test \<^verbatim>\<open>other_obj\<close> against \<^verbatim>\<open>NULL\<close>: at a \<^verbatim>\<open>NULL\<close> entry
  \<^verbatim>\<open>PyObject_Type(NULL)\<close> is \<^verbatim>\<open>NULL\<close>, which differs from the type of \<open>obj\<close>, and
  \<^verbatim>\<open>PyObject_IsInstance(NULL, ...)\<close> is evaluated; that is the result \<open>None\<close>.
\<close>

fun subtype_to_right :: "host \<Rightarrow> ptr \<Rightarrow> overrides \<Rightarrow> bool option" where
  "subtype_to_right h obj [] = Some False"
| "subtype_to_right h obj ((None, p) # rest) = None"
| "subtype_to_right h obj ((Some other_obj, p) # rest) =
     (if subtype_instance h other_obj obj then Some True
      else subtype_to_right h obj rest)"

datatype choice = NoneLeft | Chosen nat ptr nat | NullArgument

text \<open>
  The outer loop from index \<open>i\<close> on, given the entries from \<open>i\<close> on: \<open>Chosen i obj pos\<close>
  when it breaks at index \<open>i\<close> with \<^verbatim>\<open>override_obj = obj\<close> and \<^verbatim>\<open>override_pos = pos\<close>,
  \<open>NoneLeft\<close> when it ends with \<^verbatim>\<open>override_obj == NULL\<close>.
\<close>

fun choose_override :: "host \<Rightarrow> nat \<Rightarrow> overrides \<Rightarrow> choice" where
  "choose_override h i [] = NoneLeft"
| "choose_override h i ((None, p) # rest) = choose_override h (Suc i) rest"
| "choose_override h i ((Some obj, p) # rest) =
     (case subtype_to_right h obj rest of
        None \<Rightarrow> NullArgument
      | Some True \<Rightarrow> choose_override h (Suc i) rest
      | Some False \<Rightarrow> Chosen i obj p)"

text \<open>The number of entries that are not \<^verbatim>\<open>NULL\<close>: what the \<^verbatim>\<open>while (1)\<close> loop uses up.\<close>

definition remaining :: "overrides \<Rightarrow> nat" where
  "remaining wo = length (filter (\<lambda>e. fst e \<noteq> None) wo)"

lemma choose_override_decomp:
  "choose_override h i wo = Chosen k obj pos \<Longrightarrow>
   \<exists>pre post. wo = pre @ (Some obj, pos) # post \<and> k = i + length pre"
proof (induction h i wo rule: choose_override.induct)
  case (1 h i)
  then show ?case by simp
next
  case (2 h i p rest)
  then obtain pre post where "rest = pre @ (Some obj, pos) # post" "k = Suc i + length pre"
    by auto
  then have "(None, p) # rest = ((None, p) # pre) @ (Some obj, pos) # post \<and>
             k = i + length ((None, p) # pre)"
    by simp
  then show ?case by blast
next
  case (3 h i ob p rest)
  show ?case
  proof (cases "subtype_to_right h ob rest")
    case None
    with 3 show ?thesis by simp
  next
    case (Some b)
    show ?thesis
    proof (cases b)
      case True
      from "3.prems" Some True have c: "choose_override h (Suc i) rest = Chosen k obj pos"
        by simp
      from Some True have s: "subtype_to_right h ob rest = Some True"
        by simp
      from "3.IH" [OF s _ c] obtain pre post where
        "rest = pre @ (Some obj, pos) # post" "k = Suc i + length pre"
        by auto
      then have "(Some ob, p) # rest = ((Some ob, p) # pre) @ (Some obj, pos) # post \<and>
                 k = i + length ((Some ob, p) # pre)"
        by simp
      then show ?thesis by blast
    next
      case False
      with "3.prems" Some have
        "(Some ob, p) # rest = [] @ (Some obj, pos) # rest \<and> k = i + length ([]::overrides)"
        by simp
      then show ?thesis by blast
    qed
  qed
qed

lemma remaining_decrease:
  assumes "choose_override h 0 wo = Chosen k obj pos"
  shows "remaining (wo[k := (None, pos)]) < remaining wo"
proof -
  from choose_override_decomp [OF assms] obtain pre post where
    wo: "wo = pre @ (Some obj, pos) # post" and k: "k = length pre"
    by auto
  show ?thesis
    by (simp add: wo k remaining_def)
qed

subsection \<open>The calling loop (lines 119 to 196)\<close>

definition type_error_not_implemented :: exn where
  "type_error_not_implemented = TypeError ''__numpy_ufunc__ not implemented for this type.''"

text \<open>
  One round chooses an argument, sets its entry to \<^verbatim>\<open>NULL\<close>, looks its attribute up,
  calls it, and goes round again when the call returns \<^verbatim>\<open>Py_NotImplemented\<close>. The
  function returns the outcome and the calls made, in order.
\<close>

function call_loop ::
  "host \<Rightarrow> store \<Rightarrow> ptr \<Rightarrow> string \<Rightarrow> ptr \<Rightarrow> ptr \<Rightarrow> overrides \<Rightarrow> outcome \<times> call list" where
  "call_loop h s ufunc method_name normal_args normal_kwds wo =
     (case choose_override h 0 wo of
        NullArgument \<Rightarrow> (NullDeref, [])
      | NoneLeft \<Rightarrow> (Failure type_error_not_implemented, [])
      | Chosen i override_obj override_pos \<Rightarrow>
          (case PyObject_GetAttrString h override_obj of
             Inl e \<Rightarrow> (Failure e, [])
           | Inr numpy_ufunc \<Rightarrow>
               (let oargs = \<lparr>oa_ufunc = ufunc, oa_method = method_name,
                             oa_pos = override_pos, oa_inputs = normal_args\<rparr>;
                    c = \<lparr>call_obj = override_obj, call_func = numpy_ufunc,
                         call_args = oargs, call_kwds = normal_kwds\<rparr>
                in case PyObject_Call h s numpy_ufunc oargs normal_kwds of
                     Inl e \<Rightarrow> (Failure e, [c])
                   | Inr r \<Rightarrow>
                       if r = Py_NotImplemented h
                       then (case call_loop h s ufunc method_name normal_args normal_kwds
                                     (wo[i := (None, override_pos)]) of
                               (out, tr) \<Rightarrow> (out, c # tr))
                       else (Result r, [c]))))"
  by pat_completeness auto
termination
  by (relation "measure (\<lambda>(h, s, u, m, na, nk, wo). remaining wo)")
     (auto intro: remaining_decrease)

declare call_loop.simps [simp del]

subsection \<open>The whole function\<close>

definition value_error_non_tuple :: exn where
  "value_error_non_tuple =
     ValueError ''Internal Numpy error: call to PyUFunc_CheckOverride with non-tuple''"

definition value_error_too_many :: exn where
  "value_error_too_many =
     ValueError ''Internal Numpy error: too many arguments in call to PyUFunc_CheckOverride''"

text \<open>
  Lines 98 to 109: the arguments after the first \<open>nin\<close> go into the new dictionary under
  \<^verbatim>\<open>"out"\<close>, a single one as it is, several as the slice \<^verbatim>\<open>PyTuple_GetSlice(args, nin, nargs)\<close>.
  The branch is reached with at least one argument, so \<open>nargs - 1\<close> is an index of \<open>xs\<close>.
  \<open>xs\<close> are the items of the tuple \<open>args\<close>.
\<close>

definition set_out :: "host \<Rightarrow> store \<Rightarrow> ptr \<Rightarrow> ptr \<Rightarrow> ptr list \<Rightarrow> int \<Rightarrow> store" where
  "set_out h s normal_kwds args xs nin =
     (let nargs = int (length xs)
      in if nargs > nin then
           (if nargs - nin = 1 then
              PyDict_SetItemString s normal_kwds ''out'' (xs ! nat (nargs - 1))
            else
              (case PyTuple_GetSlice h s args xs nin nargs of
                 (obj, s') \<Rightarrow> PyDict_SetItemString s' normal_kwds ''out'' obj))
         else s)"

text \<open>
  Lines 88 to 93: a copy of \<open>kwds\<close> when it is an exact dictionary, a new empty
  dictionary otherwise.
\<close>

definition new_kwds :: "store \<Rightarrow> ptr option \<Rightarrow> ptr \<times> store" where
  "new_kwds s kwds =
     (case exact_dict s kwds of
        Some d \<Rightarrow> alloc s (DictCell d)
      | None \<Rightarrow> alloc s (DictCell Map.empty))"

text \<open>
  Lines 82 to 109: \<^verbatim>\<open>normal_args\<close>, \<^verbatim>\<open>normal_kwds\<close> and the store once they are built;
  \<open>xs\<close> are the items of the tuple \<open>args\<close>. The allocations that return \<^verbatim>\<open>NULL\<close> only when memory is exhausted (lines 83, 94,
  112 and 173) always succeed here, the store being unbounded.
\<close>

definition normalize ::
  "host \<Rightarrow> store \<Rightarrow> ptr \<Rightarrow> ptr list \<Rightarrow> ptr option \<Rightarrow> int \<Rightarrow> ptr \<times> ptr \<times> store" where
  "normalize h s args xs kwds nin =
     (case PyTuple_GetSlice h s args xs 0 nin of
        (normal_args, s1) \<Rightarrow>
          (case new_kwds s1 kwds of
             (normal_kwds, s2) \<Rightarrow>
               (normal_args, normal_kwds, set_out h s2 normal_kwds args xs nin)))"

text \<open>
  The result is the outcome, the calls made and the store at the end. \<open>nin\<close> and
  \<open>nargs\<close> are C \<^verbatim>\<open>int\<close>s; \<open>nargs\<close> is at most \<^verbatim>\<open>NPY_MAXARGS\<close> where it is used, and
  for a 32-bit \<open>nin\<close> the difference \<open>nargs - nin\<close> is 1 modulo \<open>2 ^ 32\<close> only when it
  is 1, so the tests of lines 99 and 100 are decided on unbounded integers as they are in
  C. The host calls are taken to leave the tuples and dictionaries of the store as they
  are.
\<close>

definition PyUFunc_CheckOverride ::
  "host \<Rightarrow> store \<Rightarrow> ptr \<Rightarrow> string \<Rightarrow> ptr \<Rightarrow> ptr option \<Rightarrow> int \<Rightarrow> outcome \<times> call list \<times> store" where
  "PyUFunc_CheckOverride h s ufunc method args kwds nin =
     (case tuple_items s args of
        None \<Rightarrow> (Failure value_error_non_tuple, [], s)
      | Some xs \<Rightarrow>
          if length xs > NPY_MAXARGS h then (Failure value_error_too_many, [], s)
          else
            (let wo = discover h 0 xs
             in if wo = [] then (NoOverride, [], s)
                else
                  (case normalize h s args xs kwds nin of
                     (normal_args, normal_kwds, s3) \<Rightarrow>
                       (case call_loop h s3 ufunc method normal_args normal_kwds wo of
                          (out, tr) \<Rightarrow> (out, tr, s3)))))"

section \<open>Vocabulary of the properties\<close>

text \<open>The three parts of what the function returns.\<close>

definition outcome_of :: "outcome \<times> call list \<times> store \<Rightarrow> outcome" where
  "outcome_of r = fst r"

definition calls_of :: "outcome \<times> call list \<times> store \<Rightarrow> call list" where
  "calls_of r = fst (snd r)"

definition store_of :: "outcome \<times> call list \<times> store \<Rightarrow> store" where
  "store_of r = snd (snd r)"

text \<open>
  An operand is a candidate when the discovery loop records it: it is neither an exact
  array nor a scalar, and it has the attribute.
\<close>

definition candidate :: "host \<Rightarrow> ptr \<Rightarrow> bool" where
  "candidate h obj =
     (\<not> (PyArray_CheckExact h obj \<or> PyArray_IsAnyScalar h obj) \<and> PyObject_HasAttrString h obj)"

text \<open>The positions in \<open>args\<close> handed to the overrides, in the order of the calls.\<close>

definition positions :: "call list \<Rightarrow> nat list" where
  "positions tr = map (\<lambda>c. oa_pos (call_args c)) tr"

text \<open>What a recorded call returned.\<close>

definition call_result :: "host \<Rightarrow> store \<Rightarrow> call \<Rightarrow> exn + ptr" where
  "call_result h s c = PyObject_Call h s (call_func c) (call_args c) (call_kwds c)"

text \<open>The entry of the exact dictionary at \<open>d\<close> under key \<open>k\<close>, if any.\<close>

definition dict_get :: "store \<Rightarrow> ptr \<Rightarrow> string \<Rightarrow> ptr option" where
  "dict_get s d k = (case exact_dict s (Some d) of Some m \<Rightarrow> m k | None \<Rightarrow> None)"

text \<open>The entries \<^verbatim>\<open>normal_kwds\<close> starts with.\<close>

definition kwds_copy :: "store \<Rightarrow> ptr option \<Rightarrow> string \<rightharpoonup> ptr" where
  "kwds_copy s kwds = (case exact_dict s kwds of Some d \<Rightarrow> d | None \<Rightarrow> Map.empty)"

text \<open>Position \<open>q\<close> occurs in \<open>ps\<close> before the first occurrence of \<open>p\<close>.\<close>

definition attempted_before :: "nat \<Rightarrow> nat \<Rightarrow> nat list \<Rightarrow> bool" where
  "attempted_before q p ps = (q \<in> set (takeWhile (\<lambda>x. x \<noteq> p) ps))"

text \<open>
  The test of line 141 is transitive on the operands \<open>xs\<close>, as it is when it decides
  subclassing in a class hierarchy.
\<close>

definition subtype_transitive :: "host \<Rightarrow> ptr list \<Rightarrow> bool" where
  "subtype_transitive h xs =
     (\<forall>a\<in>set xs. \<forall>b\<in>set xs. \<forall>c\<in>set xs.
        subtype_instance h a b \<and> subtype_instance h b c \<longrightarrow> subtype_instance h a c)"

text \<open>
  For the proofs: an entry of \<open>rest\<close> makes the inner loop break for \<open>obj\<close>; every entry
  of \<open>pre\<close> that is not \<^verbatim>\<open>NULL\<close> is passed over by the outer loop; the objects of the
  entries that are not \<^verbatim>\<open>NULL\<close>; transitivity of the test on a set.
\<close>

definition blocked :: "host \<Rightarrow> ptr \<Rightarrow> overrides \<Rightarrow> bool" where
  "blocked h obj rest = (\<exists>ob p. (Some ob, p) \<in> set rest \<and> subtype_instance h ob obj)"

fun all_blocked :: "host \<Rightarrow> overrides \<Rightarrow> overrides \<Rightarrow> bool" where
  "all_blocked h [] rest = True"
| "all_blocked h ((None, p) # pre) rest = all_blocked h pre rest"
| "all_blocked h ((Some ob, p) # pre) rest = (blocked h ob (pre @ rest) \<and> all_blocked h pre rest)"

definition entries_of :: "overrides \<Rightarrow> ptr set" where
  "entries_of wo = {ob. \<exists>p. (Some ob, p) \<in> set wo}"

definition subtype_trans_on :: "host \<Rightarrow> ptr set \<Rightarrow> bool" where
  "subtype_trans_on h A =
     (\<forall>a\<in>A. \<forall>b\<in>A. \<forall>c\<in>A.
        subtype_instance h a b \<and> subtype_instance h b c \<longrightarrow> subtype_instance h a c)"

text \<open>The entries that are \<^verbatim>\<open>NULL\<close> all come before the others.\<close>

definition nulls_first :: "overrides \<Rightarrow> bool" where
  "nulls_first wo = (\<exists>ns ss. wo = ns @ ss \<and> (\<forall>e\<in>set ns. fst e = None) \<and> (\<forall>e\<in>set ss. fst e \<noteq> None))"

section \<open>Hosts and stores for the examples\<close>

text \<open>
  A host with \<^verbatim>\<open>NPY_MAXARGS = 32\<close>, in which every tuple is an exact tuple, \<open>Obj 0\<close> is an exact array, \<open>Obj 5\<close> a
  scalar, and \<open>Obj 1\<close>, \<open>Obj 2\<close> and \<open>Obj 3\<close> have the attribute. The type of \<open>Obj n\<close> is
  \<open>Obj (10 + n)\<close>, its attribute is \<open>Obj (20 + n)\<close>, and \<open>Obj 99\<close> is
  \<^verbatim>\<open>Py_NotImplemented\<close>. An object is an instance of its own type and of the types
  \<open>inst\<close> names; \<open>ret\<close> says what each attribute returns when called.
\<close>

definition example_host :: "(ptr \<Rightarrow> ptr \<Rightarrow> bool) \<Rightarrow> (ptr \<Rightarrow> exn + ptr) \<Rightarrow> host" where
  "example_host inst ret =
     \<lparr>NPY_MAXARGS = 32,
      PyTuple_CheckExact = (\<lambda>p. True),
      PyArray_CheckExact = (\<lambda>p. p = Obj 0),
      PyArray_IsAnyScalar = (\<lambda>p. p = Obj 5),
      PyObject_HasAttrString = (\<lambda>p. p = Obj 1 \<or> p = Obj 2 \<or> p = Obj 3),
      PyObject_Type = (\<lambda>p. case p of Obj n \<Rightarrow> Obj (10 + n) | Ref a \<Rightarrow> Obj 10),
      PyObject_IsInstance =
        (\<lambda>p t. if t = (case p of Obj n \<Rightarrow> Obj (10 + n) | Ref a \<Rightarrow> Obj 10) \<or> inst p t
                then 1 else 0),
      PyObject_GetAttrString = (\<lambda>p. case p of Obj n \<Rightarrow> Inr (Obj (20 + n)) | Ref a \<Rightarrow> Inl (Raised 0)),
      PyObject_Call = (\<lambda>s f a k. ret f),
      Py_NotImplemented = Obj 99\<rparr>"

text \<open>No subclassing; every override returns \<open>Obj 50\<close>.\<close>

definition host_accept :: host where
  "host_accept = example_host (\<lambda>p t. False) (\<lambda>f. Inr (Obj 50))"

text \<open>
  \<open>Obj 2\<close> is an instance of the type of \<open>Obj 1\<close>, a subclass instance. The override of
  \<open>Obj 2\<close> declines, that of \<open>Obj 1\<close> returns \<open>Obj 50\<close>.
\<close>

definition host_sub :: host where
  "host_sub =
     example_host (\<lambda>p t. p = Obj 2 \<and> t = Obj 11)
       (\<lambda>f. if f = Obj 22 then Inr (Obj 99) else Inr (Obj 50))"

text \<open>The same types; every override declines.\<close>

definition host_decline :: host where
  "host_decline = example_host (\<lambda>p t. p = Obj 2 \<and> t = Obj 11) (\<lambda>f. Inr (Obj 99))"

text \<open>No subclassing; the override of \<open>Obj 1\<close> declines, that of \<open>Obj 2\<close> returns \<open>Obj 50\<close>.\<close>

definition host_turns :: host where
  "host_turns =
     example_host (\<lambda>p t. False) (\<lambda>f. if f = Obj 21 then Inr (Obj 99) else Inr (Obj 50))"

text \<open>No subclassing; the override of \<open>Obj 1\<close> raises, that of \<open>Obj 2\<close> returns \<open>Obj 50\<close>.\<close>

definition host_raise :: host where
  "host_raise =
     example_host (\<lambda>p t. False) (\<lambda>f. if f = Obj 21 then Inl (Raised 7) else Inr (Obj 50))"

text \<open>
  \<open>Obj 1\<close> is a subclass instance of the type of \<open>Obj 2\<close>, and \<open>Obj 3\<close> is an instance of
  the type of \<open>Obj 1\<close> but not of the type of \<open>Obj 2\<close>: the type of \<open>Obj 1\<close> accepts
  \<open>Obj 3\<close> as a registered (virtual) instance, the type of \<open>Obj 2\<close> tests real
  subclassing. Every override returns \<open>Obj 50\<close>.
\<close>

definition host_virtual :: host where
  "host_virtual =
     example_host (\<lambda>p t. (p = Obj 1 \<and> t = Obj 12) \<or> (p = Obj 3 \<and> t = Obj 11))
       (\<lambda>f. Inr (Obj 50))"

text \<open>
  A store with the tuple \<open>(Obj 1, Obj 7)\<close> at address 0 and the dictionary
  \<^verbatim>\<open>{"where": Obj 6, "out": Obj 8}\<close> at address 1.
\<close>

definition store_kw :: store where
  "store_kw = [TupleCell [Obj 1, Obj 7], DictCell [''where'' \<mapsto> Obj 6, ''out'' \<mapsto> Obj 8]]"

section \<open>Lemmas\<close>

lemma discover_set:
  "(ob, p) \<in> set (discover h i xs) \<longleftrightarrow>
   (\<exists>j<length xs. ob = Some (xs ! j) \<and> p = i + j \<and> candidate h (xs ! j))"
proof (induction xs arbitrary: i)
  case Nil
  then show ?case by simp
next
  case (Cons x xs)
  have split: "(\<exists>j<length (x # xs). Q j) \<longleftrightarrow> Q 0 \<or> (\<exists>j<length xs. Q (Suc j))" for Q
    by (auto simp: less_Suc_eq_0_disj)
  show ?case
    unfolding split
    by (auto simp: Cons.IH candidate_def)
qed

lemma discover_distinct: "distinct (map snd (discover h i xs))"
proof (induction xs arbitrary: i)
  case Nil
  then show ?case by simp
next
  case (Cons x xs)
  have "i \<notin> snd ` set (discover h (Suc i) xs)"
    by (auto simp: discover_set)
  with Cons show ?case by simp
qed

lemma discover_empty: "discover h i xs = [] \<longleftrightarrow> (\<forall>x\<in>set xs. \<not> candidate h x)"
  by (induction xs arbitrary: i) (auto simp: candidate_def)

lemma call_loop_cases:
  assumes "call_loop h s u m na nk wo = (out, tr)"
  obtains
    (null) "choose_override h 0 wo = NullArgument" "out = NullDeref" "tr = []"
  | (none) "choose_override h 0 wo = NoneLeft" "out = Failure type_error_not_implemented" "tr = []"
  | (attr) i obj pos e where "choose_override h 0 wo = Chosen i obj pos"
      "PyObject_GetAttrString h obj = Inl e" "out = Failure e" "tr = []"
  | (raised) i obj pos f e where "choose_override h 0 wo = Chosen i obj pos"
      "PyObject_GetAttrString h obj = Inr f"
      "PyObject_Call h s f \<lparr>oa_ufunc = u, oa_method = m, oa_pos = pos, oa_inputs = na\<rparr> nk = Inl e"
      "out = Failure e"
      "tr = [\<lparr>call_obj = obj, call_func = f,
              call_args = \<lparr>oa_ufunc = u, oa_method = m, oa_pos = pos, oa_inputs = na\<rparr>,
              call_kwds = nk\<rparr>]"
  | (result) i obj pos f r where "choose_override h 0 wo = Chosen i obj pos"
      "PyObject_GetAttrString h obj = Inr f"
      "PyObject_Call h s f \<lparr>oa_ufunc = u, oa_method = m, oa_pos = pos, oa_inputs = na\<rparr> nk = Inr r"
      "r \<noteq> Py_NotImplemented h"
      "out = Result r"
      "tr = [\<lparr>call_obj = obj, call_func = f,
              call_args = \<lparr>oa_ufunc = u, oa_method = m, oa_pos = pos, oa_inputs = na\<rparr>,
              call_kwds = nk\<rparr>]"
  | (decline) i obj pos f tr' where "choose_override h 0 wo = Chosen i obj pos"
      "PyObject_GetAttrString h obj = Inr f"
      "PyObject_Call h s f \<lparr>oa_ufunc = u, oa_method = m, oa_pos = pos, oa_inputs = na\<rparr> nk
         = Inr (Py_NotImplemented h)"
      "call_loop h s u m na nk (wo[i := (None, pos)]) = (out, tr')"
      "tr = \<lparr>call_obj = obj, call_func = f,
              call_args = \<lparr>oa_ufunc = u, oa_method = m, oa_pos = pos, oa_inputs = na\<rparr>,
              call_kwds = nk\<rparr> # tr'"
proof -
  note step = assms [unfolded call_loop.simps [of h s u m na nk wo]]
  show thesis
  proof (cases "choose_override h 0 wo")
    case NoneLeft
    with step none show ?thesis by simp
  next
    case NullArgument
    with step null show ?thesis by simp
  next
    case (Chosen i obj pos)
    show ?thesis
    proof (cases "PyObject_GetAttrString h obj")
      case (Inl e)
      with step Chosen attr show ?thesis by simp
    next
      case (Inr f)
      show ?thesis
      proof (cases "PyObject_Call h s f
                      \<lparr>oa_ufunc = u, oa_method = m, oa_pos = pos, oa_inputs = na\<rparr> nk")
        case (Inl e)
        with step Chosen \<open>PyObject_GetAttrString h obj = Inr f\<close> raised show ?thesis
          by (simp add: Let_def)
      next
        case r: (Inr r)
        show ?thesis
        proof (cases "r = Py_NotImplemented h")
          case False
          with step Chosen Inr r result show ?thesis
            by (simp add: Let_def)
        next
          case True
          with step Chosen Inr r decline show ?thesis
            by (simp add: Let_def split: prod.splits)
        qed
      qed
    qed
  qed
qed

lemma call_loop_calls:
  assumes "call_loop h s u m na nk wo = (out, tr)" and "c \<in> set tr"
  shows "(Some (call_obj c), oa_pos (call_args c)) \<in> set wo \<and>
         PyObject_GetAttrString h (call_obj c) = Inr (call_func c) \<and>
         oa_ufunc (call_args c) = u \<and> oa_method (call_args c) = m \<and>
         oa_inputs (call_args c) = na \<and> call_kwds c = nk"
  using assms
proof (induction "remaining wo" arbitrary: wo out tr rule: less_induct)
  case less
  from less.prems(1) show ?case
  proof (cases rule: call_loop_cases)
    case null
    with less.prems(2) show ?thesis by simp
  next
    case none
    with less.prems(2) show ?thesis by simp
  next
    case (attr i obj pos e)
    with less.prems(2) show ?thesis by simp
  next
    case (raised i obj pos f e)
    from choose_override_decomp [OF raised(1)] have "(Some obj, pos) \<in> set wo"
      by auto
    with raised less.prems(2) show ?thesis by simp
  next
    case (result i obj pos f r)
    from choose_override_decomp [OF result(1)] have "(Some obj, pos) \<in> set wo"
      by auto
    with result less.prems(2) show ?thesis by simp
  next
    case (decline i obj pos f tr')
    from choose_override_decomp [OF decline(1)] obtain pre post where
      wo: "wo = pre @ (Some obj, pos) # post" and i: "i = length pre"
      by auto
    show ?thesis
    proof (cases "c \<in> set tr'")
      case False
      with decline(5) less.prems(2) have "c = \<lparr>call_obj = obj, call_func = f,
              call_args = \<lparr>oa_ufunc = u, oa_method = m, oa_pos = pos, oa_inputs = na\<rparr>,
              call_kwds = nk\<rparr>"
        by simp
      with wo decline(2) show ?thesis by simp
    next
      case True
      have "remaining (wo[i := (None, pos)]) < remaining wo"
        using decline(1) by (rule remaining_decrease)
      from less.hyps [OF this decline(4) True]
      show ?thesis by (auto simp: wo i)
    qed
  qed
qed

lemma call_loop_positions:
  assumes "call_loop h s u m na nk wo = (out, tr)" and "distinct (map snd wo)"
  shows "distinct (positions tr) \<and> (\<forall>p\<in>set (positions tr). \<exists>ob. (Some ob, p) \<in> set wo)"
  using assms
proof (induction "remaining wo" arbitrary: wo out tr rule: less_induct)
  case less
  from less.prems(1) show ?case
  proof (cases rule: call_loop_cases)
    case null
    then show ?thesis by (simp add: positions_def)
  next
    case none
    then show ?thesis by (simp add: positions_def)
  next
    case (attr i obj pos e)
    then show ?thesis by (simp add: positions_def)
  next
    case (raised i obj pos f e)
    from choose_override_decomp [OF raised(1)] have "(Some obj, pos) \<in> set wo"
      by auto
    with raised show ?thesis by (auto simp: positions_def)
  next
    case (result i obj pos f r)
    from choose_override_decomp [OF result(1)] have "(Some obj, pos) \<in> set wo"
      by auto
    with result show ?thesis by (auto simp: positions_def)
  next
    case (decline i obj pos f tr')
    from choose_override_decomp [OF decline(1)] obtain pre post where
      wo: "wo = pre @ (Some obj, pos) # post" and i: "i = length pre"
      by auto
    have upd: "wo[i := (None, pos)] = pre @ (None, pos) # post"
      by (simp add: wo i)
    have "remaining (wo[i := (None, pos)]) < remaining wo"
      using decline(1) by (rule remaining_decrease)
    moreover from less.prems(2) have "distinct (map snd (pre @ (None, pos) # post))"
      by (simp add: wo)
    then have d: "distinct (map snd (wo[i := (None, pos)]))"
      by (simp only: upd)
    ultimately have ih: "distinct (positions tr') \<and>
        (\<forall>p\<in>set (positions tr'). \<exists>ob. (Some ob, p) \<in> set (wo[i := (None, pos)]))"
      using less.hyps decline(4) by blast
    have "pos \<notin> set (positions tr')"
    proof
      assume "pos \<in> set (positions tr')"
      with ih obtain ob where "(Some ob, pos) \<in> set (pre @ (None, pos) # post)"
        unfolding upd by blast
      then have "pos \<in> snd ` set pre \<or> pos \<in> snd ` set post"
        by force
      with less.prems(2) show False
        by (auto simp: wo)
    qed
    moreover have "\<exists>ob. (Some ob, p) \<in> set wo" if "p \<in> set (positions tr')" for p
    proof -
      from ih that obtain ob where "(Some ob, p) \<in> set (pre @ (None, pos) # post)"
        unfolding upd by blast
      then have "(Some ob, p) \<in> set wo"
        by (auto simp: wo)
      then show ?thesis ..
    qed
    moreover have "(Some obj, pos) \<in> set wo"
      by (simp add: wo)
    ultimately show ?thesis
      using ih decline(5) by (auto simp: positions_def)
  qed
qed

lemma call_loop_raise_is_last:
  assumes "call_loop h s u m na nk wo = (out, tr)"
    and "i < length tr" and "call_result h s (tr ! i) = Inl e"
  shows "Suc i = length tr \<and> out = Failure e"
  using assms
proof (induction "remaining wo" arbitrary: wo out tr i rule: less_induct)
  case less
  from less.prems(1) show ?case
  proof (cases rule: call_loop_cases)
    case null
    with less.prems(2) show ?thesis by simp
  next
    case none
    with less.prems(2) show ?thesis by simp
  next
    case (attr k obj pos e')
    with less.prems(2) show ?thesis by simp
  next
    case (raised k obj pos f e')
    with less.prems(2,3) show ?thesis by (simp add: call_result_def)
  next
    case (result k obj pos f r)
    with less.prems(2,3) show ?thesis by (simp add: call_result_def)
  next
    case (decline k obj pos f tr')
    show ?thesis
    proof (cases i)
      case 0
      with decline less.prems(3) show ?thesis by (simp add: call_result_def)
    next
      case (Suc j)
      have "remaining (wo[k := (None, pos)]) < remaining wo"
        using decline(1) by (rule remaining_decrease)
      moreover from Suc decline(5) less.prems(2,3)
      have "j < length tr'" "call_result h s (tr' ! j) = Inl e"
        by simp_all
      ultimately have "Suc j = length tr' \<and> out = Failure e"
        using less.hyps decline(4) by blast
      with Suc decline(5) show ?thesis by simp
    qed
  qed
qed

lemma subtype_to_right_False:
  "subtype_to_right h obj rest = Some False \<Longrightarrow>
   \<forall>e\<in>set rest. \<exists>ob. fst e = Some ob \<and> \<not> subtype_instance h ob obj"
  by (induction h obj rest rule: subtype_to_right.induct) (auto split: if_splits)

lemma subtype_to_right_True:
  "subtype_to_right h obj rest = Some True \<Longrightarrow> blocked h obj rest"
  by (induction h obj rest rule: subtype_to_right.induct) (auto simp: blocked_def split: if_splits)

lemma choose_override_chosen:
  "choose_override h i wo = Chosen k obj pos \<Longrightarrow>
   \<exists>pre post. wo = pre @ (Some obj, pos) # post \<and> k = i + length pre \<and>
     (\<forall>e\<in>set post. \<exists>ob. fst e = Some ob \<and> \<not> subtype_instance h ob obj) \<and>
     all_blocked h pre ((Some obj, pos) # post)"
proof (induction h i wo rule: choose_override.induct)
  case (1 h i)
  then show ?case by simp
next
  case (2 h i p rest)
  then obtain pre post where "rest = pre @ (Some obj, pos) # post" "k = Suc i + length pre"
    "\<forall>e\<in>set post. \<exists>ob. fst e = Some ob \<and> \<not> subtype_instance h ob obj"
    "all_blocked h pre ((Some obj, pos) # post)"
    by auto
  then have "(None, p) # rest = ((None, p) # pre) @ (Some obj, pos) # post \<and>
             k = i + length ((None, p) # pre) \<and>
             (\<forall>e\<in>set post. \<exists>ob. fst e = Some ob \<and> \<not> subtype_instance h ob obj) \<and>
             all_blocked h ((None, p) # pre) ((Some obj, pos) # post)"
    by simp
  then show ?case by blast
next
  case (3 h i ob p rest)
  show ?case
  proof (cases "subtype_to_right h ob rest")
    case None
    with 3 show ?thesis by simp
  next
    case (Some b)
    show ?thesis
    proof (cases b)
      case True
      from "3.prems" Some True have c: "choose_override h (Suc i) rest = Chosen k obj pos"
        by simp
      from Some True have s: "subtype_to_right h ob rest = Some True"
        by simp
      from "3.IH" [OF s _ c] obtain pre post where
        r: "rest = pre @ (Some obj, pos) # post" and "k = Suc i + length pre"
        "\<forall>e\<in>set post. \<exists>ob. fst e = Some ob \<and> \<not> subtype_instance h ob obj"
        "all_blocked h pre ((Some obj, pos) # post)"
        by auto
      moreover from subtype_to_right_True [OF s] r
      have "blocked h ob (pre @ (Some obj, pos) # post)"
        by simp
      ultimately have "(Some ob, p) # rest = ((Some ob, p) # pre) @ (Some obj, pos) # post \<and>
                 k = i + length ((Some ob, p) # pre) \<and>
                 (\<forall>e\<in>set post. \<exists>ob. fst e = Some ob \<and> \<not> subtype_instance h ob obj) \<and>
                 all_blocked h ((Some ob, p) # pre) ((Some obj, pos) # post)"
        by simp
      then show ?thesis by blast
    next
      case False
      with "3.prems" Some have s: "subtype_to_right h ob rest = Some False"
        and "ob = obj" "p = pos" "k = i"
        by simp_all
      with subtype_to_right_False [OF s] have
        "(Some ob, p) # rest = [] @ (Some obj, pos) # rest \<and> k = i + length ([]::overrides) \<and>
         (\<forall>e\<in>set rest. \<exists>ob. fst e = Some ob \<and> \<not> subtype_instance h ob obj) \<and>
         all_blocked h [] ((Some obj, pos) # rest)"
        by simp
      then show ?thesis by blast
    qed
  qed
qed

lemma blocked_chain:
  assumes "subtype_trans_on h A" and "P \<in> A"
    and "entries_of pre \<subseteq> A" and "entries_of rest \<subseteq> A"
    and "all_blocked h pre rest"
    and "\<not> blocked h P rest"
  shows "\<not> blocked h P pre"
  using assms(3,5)
proof (induction pre)
  case Nil
  then show ?case by (simp add: blocked_def)
next
  case (Cons e pre)
  obtain x p where e: "e = (x, p)" by (cases e)
  from Cons.prems(1) have sub: "entries_of pre \<subseteq> A"
    by (auto simp: entries_of_def)
  show ?case
  proof (cases x)
    case None
    with Cons e sub show ?thesis by (simp add: blocked_def)
  next
    case (Some ob)
    with Cons.prems e have b: "blocked h ob (pre @ rest)" and ab: "all_blocked h pre rest"
      by simp_all
    from Cons.IH [OF sub ab] have np: "\<not> blocked h P pre" .
    from Cons.prems(1) e Some have obA: "ob \<in> A"
      by (auto simp: entries_of_def)
    have "\<not> subtype_instance h ob P"
    proof
      assume sp: "subtype_instance h ob P"
      from b obtain ob' p' where e': "(Some ob', p') \<in> set (pre @ rest)"
        "subtype_instance h ob' ob"
        unfolding blocked_def by blast
      from e'(1) sub assms(4) have "ob' \<in> A"
        by (auto simp: entries_of_def)
      with assms(1,2) obA e'(2) sp have "subtype_instance h ob' P"
        unfolding subtype_trans_on_def by blast
      with e'(1) have "blocked h P pre \<or> blocked h P rest"
        by (force simp: blocked_def)
      with np assms(6) show False by simp
    qed
    with np e Some show ?thesis by (auto simp: blocked_def)
  qed
qed

lemma chosen_not_blocked:
  assumes ch: "choose_override h 0 wo = Chosen k obj pos"
    and tr: "subtype_trans_on h (entries_of wo)"
  shows "\<not> blocked h obj wo"
proof -
  from choose_override_chosen [OF ch] obtain pre post where
    wo: "wo = pre @ (Some obj, pos) # post"
    and post: "\<forall>e\<in>set post. \<exists>ob. fst e = Some ob \<and> \<not> subtype_instance h ob obj"
    and ab: "all_blocked h pre ((Some obj, pos) # post)"
    by auto
  have irrefl: "\<not> subtype_instance h obj obj"
    by (simp add: subtype_instance_def)
  from post have np: "\<not> blocked h obj post"
    by (fastforce simp: blocked_def)
  with irrefl have nr: "\<not> blocked h obj ((Some obj, pos) # post)"
    by (auto simp: blocked_def)
  have "obj \<in> entries_of wo" "entries_of pre \<subseteq> entries_of wo"
    "entries_of ((Some obj, pos) # post) \<subseteq> entries_of wo"
    by (auto simp: wo entries_of_def)
  from blocked_chain [OF tr this ab nr] have "\<not> blocked h obj pre" .
  with nr show ?thesis
    by (auto simp: wo blocked_def)
qed

lemma call_loop_subclass_first:
  assumes "call_loop h s u m na nk wo = (out, tr)"
    and "distinct (map snd wo)"
    and "subtype_trans_on h (entries_of wo)"
    and "(Some S, q) \<in> set wo" and "(Some P, p) \<in> set wo"
    and "subtype_instance h S P"
    and "p \<in> set (positions tr)"
  shows "attempted_before q p (positions tr)"
  using assms(1,2,3,4,5,7)
proof (induction "remaining wo" arbitrary: wo out tr rule: less_induct)
  case less
  have not_p: "pos \<noteq> p" if ch: "choose_override h 0 wo = Chosen k obj pos" for k obj pos
  proof
    assume "pos = p"
    from choose_override_decomp [OF ch] have "(Some obj, pos) \<in> set wo"
      by auto
    with \<open>pos = p\<close> less.prems(2,5) have "obj = P"
      by (metis distinct_map inj_on_def snd_conv prod.inject option.inject)
    moreover from chosen_not_blocked [OF ch less.prems(3)] have "\<not> blocked h obj wo" .
    ultimately show False
      using less.prems(4) assms(6) by (auto simp: blocked_def)
  qed
  from less.prems(1) show ?case
  proof (cases rule: call_loop_cases)
    case null
    with less.prems(6) show ?thesis by (simp add: positions_def)
  next
    case none
    with less.prems(6) show ?thesis by (simp add: positions_def)
  next
    case (attr i obj pos e)
    with less.prems(6) show ?thesis by (simp add: positions_def)
  next
    case (raised i obj pos f e)
    with not_p [OF raised(1)] less.prems(6) show ?thesis by (simp add: positions_def)
  next
    case (result i obj pos f r)
    with not_p [OF result(1)] less.prems(6) show ?thesis by (simp add: positions_def)
  next
    case (decline i obj pos f tr')
    note np = not_p [OF decline(1)]
    from choose_override_decomp [OF decline(1)] obtain pre post where
      wo: "wo = pre @ (Some obj, pos) # post" and i: "i = length pre"
      by auto
    have upd: "wo[i := (None, pos)] = pre @ (None, pos) # post"
      by (simp add: wo i)
    have pos_tr: "positions tr = pos # positions tr'"
      using decline(5) by (simp add: positions_def)
    show ?thesis
    proof (cases "pos = q")
      case True
      with np show ?thesis
        by (simp add: attempted_before_def pos_tr)
    next
      case False
      have lt: "remaining (wo[i := (None, pos)]) < remaining wo"
        using decline(1) by (rule remaining_decrease)
      from less.prems(2) have "distinct (map snd (pre @ (None, pos) # post))"
        by (simp add: wo)
      then have d: "distinct (map snd (wo[i := (None, pos)]))"
        by (simp only: upd)
      have "entries_of (wo[i := (None, pos)]) \<subseteq> entries_of wo"
        unfolding upd by (auto simp: wo entries_of_def)
      with less.prems(3) have t: "subtype_trans_on h (entries_of (wo[i := (None, pos)]))"
        unfolding subtype_trans_on_def by blast
      from less.prems(4) False have sq: "(Some S, q) \<in> set (wo[i := (None, pos)])"
        unfolding upd by (auto simp: wo)
      from less.prems(5) np have pp: "(Some P, p) \<in> set (wo[i := (None, pos)])"
        unfolding upd by (auto simp: wo)
      from less.prems(6) np have "p \<in> set (positions tr')"
        by (simp add: pos_tr)
      from less.hyps [OF lt decline(4) d t sq pp this]
      have "attempted_before q p (positions tr')" .
      with np show ?thesis
        by (simp add: attempted_before_def pos_tr)
    qed
  qed
qed

lemma exact_dict_alloc_tuple:
  "exact_dict (s @ [TupleCell ys]) kwds = exact_dict s kwds"
  by (auto simp: exact_dict_def cell_at_def nth_append split: option.splits ptr.splits cell.splits)

lemma entries_of_discover: "entries_of (discover h i xs) = {x \<in> set xs. candidate h x}"
  unfolding entries_of_def discover_set by (auto simp: in_set_conv_nth)

lemma cell_at_extends:
  assumes "take (length s) s' = s" and "cell_at s a = Some c"
  shows "cell_at s' a = Some c"
proof -
  from assms(2) have a: "a < length s" and c: "s ! a = c"
    by (auto simp: cell_at_def split: if_splits)
  from assms(1) have "length s \<le> length s'"
    by (metis length_take min.cobounded1)
  moreover from assms(1) a have "s' ! a = s ! a"
    by (metis nth_take)
  ultimately show ?thesis using a c by (simp add: cell_at_def)
qed

lemma tuple_items_extends:
  assumes "take (length s) s' = s" and "tuple_items s p = Some xs"
  shows "tuple_items s' p = Some xs"
proof -
  from assms(2) obtain a where p: "p = Ref a" and "cell_at s a = Some (TupleCell xs)"
    by (auto simp: tuple_items_def split: ptr.splits option.splits cell.splits)
  with cell_at_extends [OF assms(1)] show ?thesis
    by (simp add: tuple_items_def)
qed


subsection \<open>The slice, the dictionary and the store\<close>

text \<open>
  The slice of line 82 is \<open>args\<close> itself exactly when \<open>args\<close> is an exact tuple of at
  most \<open>nin\<close> items (or empty); the dictionary is always a new cell; the cells of the
  caller are kept.
\<close>

lemma PyTuple_GetSlice_prefix:
  "PyTuple_GetSlice h s p xs 0 nin =
     (if PyTuple_CheckExact h p \<and> (int (length xs) \<le> nin \<or> xs = []) then (p, s)
      else (Ref (length s), s @ [TupleCell (take (nat nin) xs)]))"
  by (auto simp: PyTuple_GetSlice_def Let_def alloc_def)

lemma PyTuple_GetSlice_suffix:
  "nin < int (length xs) \<Longrightarrow>
   PyTuple_GetSlice h s p xs nin (int (length xs)) =
     (if PyTuple_CheckExact h p \<and> nin \<le> 0 then (p, s)
      else (Ref (length s), s @ [TupleCell (drop (nat nin) xs)]))"
  by (auto simp: PyTuple_GetSlice_def Let_def alloc_def)

lemma set_out_eq:
  "set_out h (s1 @ [DictCell d]) (Ref (length s1)) args xs nin =
     (if nin < int (length xs) then
        (if int (length xs) - nin = 1
         then s1 @ [DictCell (d(''out'' \<mapsto> xs ! nat (int (length xs) - 1)))]
         else if PyTuple_CheckExact h args \<and> nin \<le> 0
         then s1 @ [DictCell (d(''out'' \<mapsto> args))]
         else s1 @ [DictCell (d(''out'' \<mapsto> Ref (Suc (length s1)))),
                    TupleCell (drop (nat nin) xs)])
      else s1 @ [DictCell d])"
proof (cases "nin < int (length xs)")
  case False
  then show ?thesis by (simp add: set_out_def Let_def)
next
  case True
  show ?thesis
  proof (cases "int (length xs) - nin = 1")
    case one: True
    with True show ?thesis
      by (simp add: set_out_def Let_def PyDict_SetItemString_def cell_at_def)
  next
    case more: False
    show ?thesis
    proof (cases "PyTuple_CheckExact h args \<and> nin \<le> 0")
      case w: True
      with True more show ?thesis
        by (simp add: set_out_def Let_def PyTuple_GetSlice_suffix PyDict_SetItemString_def
            cell_at_def)
    next
      case w: False
      with True more show ?thesis
        by (simp add: set_out_def Let_def PyTuple_GetSlice_suffix PyDict_SetItemString_def
            cell_at_def nth_append list_update_append)
    qed
  qed
qed

lemma normalize_unfold:
  "normalize h s args xs kwds nin =
     (case PyTuple_GetSlice h s args xs 0 nin of
        (na, s1) \<Rightarrow>
          (na, Ref (length s1),
           set_out h (s1 @ [DictCell (kwds_copy s kwds)]) (Ref (length s1)) args xs nin))"
  by (simp add: normalize_def new_kwds_def alloc_def kwds_copy_def PyTuple_GetSlice_prefix
      exact_dict_alloc_tuple split: option.splits)

lemma normalize_whole:
  assumes "PyTuple_CheckExact h args \<and> (int (length xs) \<le> nin \<or> xs = [])"
  shows "normalize h s args xs kwds nin =
    (args, Ref (length s),
     set_out h (s @ [DictCell (kwds_copy s kwds)]) (Ref (length s)) args xs nin)"
  unfolding normalize_unfold PyTuple_GetSlice_prefix using assms by simp

lemma normalize_part:
  assumes "\<not> (PyTuple_CheckExact h args \<and> (int (length xs) \<le> nin \<or> xs = []))"
  shows "normalize h s args xs kwds nin =
    (Ref (length s), Ref (length (s @ [TupleCell (take (nat nin) xs)])),
     set_out h ((s @ [TupleCell (take (nat nin) xs)]) @ [DictCell (kwds_copy s kwds)])
              (Ref (length (s @ [TupleCell (take (nat nin) xs)]))) args xs nin)"
  unfolding normalize_unfold PyTuple_GetSlice_prefix using assms by (simp only: if_False prod.case)

lemma normalize_whole_eq:
  assumes "PyTuple_CheckExact h args \<and> (int (length xs) \<le> nin \<or> xs = [])"
  shows "normalize h s args xs kwds nin =
    (args, Ref (length s),
     if nin < int (length xs) then
        (if int (length xs) - nin = 1
         then s @ [DictCell ((kwds_copy s kwds)(''out'' \<mapsto> xs ! nat (int (length xs) - 1)))]
         else if PyTuple_CheckExact h args \<and> nin \<le> 0
         then s @ [DictCell ((kwds_copy s kwds)(''out'' \<mapsto> args))]
         else s @ [DictCell ((kwds_copy s kwds)(''out'' \<mapsto> Ref (Suc (length s)))),
                   TupleCell (drop (nat nin) xs)])
      else s @ [DictCell (kwds_copy s kwds)])"
  unfolding normalize_whole [OF assms] set_out_eq ..

lemma normalize_part_eq:
  assumes "\<not> (PyTuple_CheckExact h args \<and> (int (length xs) \<le> nin \<or> xs = []))"
  shows "normalize h s args xs kwds nin =
    (Ref (length s), Ref (Suc (length s)),
     if nin < int (length xs) then
        (if int (length xs) - nin = 1
         then s @ [TupleCell (take (nat nin) xs),
                   DictCell ((kwds_copy s kwds)(''out'' \<mapsto> xs ! nat (int (length xs) - 1)))]
         else if PyTuple_CheckExact h args \<and> nin \<le> 0
         then s @ [TupleCell (take (nat nin) xs),
                   DictCell ((kwds_copy s kwds)(''out'' \<mapsto> args))]
         else s @ [TupleCell (take (nat nin) xs),
                   DictCell ((kwds_copy s kwds)(''out'' \<mapsto> Ref (Suc (Suc (length s))))),
                   TupleCell (drop (nat nin) xs)])
      else s @ [TupleCell (take (nat nin) xs), DictCell (kwds_copy s kwds)])"
  unfolding normalize_part [OF assms] set_out_eq by simp

lemma normalize_frame:
  assumes "normalize h s args xs kwds nin = (na, nk, s3)"
  shows "take (length s) s3 = s"
proof (cases "PyTuple_CheckExact h args \<and> (int (length xs) \<le> nin \<or> xs = [])")
  case True
  from assms [unfolded normalize_whole_eq [OF True]] show ?thesis
    by (auto split: if_splits)
next
  case False
  from assms [unfolded normalize_part_eq [OF False]] show ?thesis
    by (auto split: if_splits)
qed

lemma normalize_kwds_new:
  assumes "normalize h s args xs kwds nin = (na, nk, s3)"
  shows "\<exists>a. nk = Ref a \<and> length s \<le> a"
proof (cases "PyTuple_CheckExact h args \<and> (int (length xs) \<le> nin \<or> xs = [])")
  case True
  from assms [unfolded normalize_whole_eq [OF True]] show ?thesis
    by auto
next
  case False
  from assms [unfolded normalize_part_eq [OF False]] show ?thesis
    by auto
qed


lemma tuple_items_normal_args:
  assumes "tuple_items s args = Some xs"
    and "normalize h s args xs kwds nin = (na, nk, s3)"
  shows "tuple_items s3 na = Some (take (nat nin) xs)"
proof (cases "PyTuple_CheckExact h args \<and> (int (length xs) \<le> nin \<or> xs = [])")
  case True
  then have "take (nat nin) xs = xs" by auto
  moreover from assms(2) [unfolded normalize_whole_eq [OF True]] have "na = args"
    by simp
  with tuple_items_extends [OF normalize_frame [OF assms(2)] assms(1)]
  have "tuple_items s3 na = Some xs" by simp
  ultimately show ?thesis by simp
next
  case False
  from assms(2) [unfolded normalize_part_eq [OF False]] show ?thesis
    by (auto simp: tuple_items_def cell_at_def nth_append split: if_splits)
qed

lemma normalize_nin_large:
  "int (length xs) \<le> nin \<Longrightarrow>
   normalize h s args xs kwds nin = normalize h s args xs kwds (int (length xs))"
  by (simp add: normalize_unfold PyTuple_GetSlice_prefix set_out_def)

lemma dict_get_normal_kwds:
  assumes "normalize h s args xs kwds nin = (na, nk, s3)"
    and "k \<noteq> ''out'' \<or> int (length xs) \<le> nin"
  shows "dict_get s3 nk k = kwds_copy s kwds k"
proof (cases "PyTuple_CheckExact h args \<and> (int (length xs) \<le> nin \<or> xs = [])")
  case True
  from assms(1) [unfolded normalize_whole_eq [OF True]] assms(2) show ?thesis
    by (auto simp: dict_get_def exact_dict_def cell_at_def nth_append split: if_splits)
next
  case False
  from assms(1) [unfolded normalize_part_eq [OF False]] assms(2) show ?thesis
    by (auto simp: dict_get_def exact_dict_def cell_at_def nth_append split: if_splits)
qed

lemma dict_get_out:
  assumes "tuple_items s args = Some xs"
    and "normalize h s args xs kwds nin = (na, nk, s3)"
    and "nin < int (length xs)"
  shows "if int (length xs) - nin = 1
         then dict_get s3 nk ''out'' = Some (xs ! (length xs - 1))
         else (\<exists>r. dict_get s3 nk ''out'' = Some r \<and>
                   tuple_items s3 r = Some (drop (nat nin) xs))"
proof -
  have n: "nat (int (length xs) - 1) = length xs - 1" by simp
  from tuple_items_extends [OF normalize_frame [OF assms(2)] assms(1)]
  have t: "tuple_items s3 args = Some xs" .
  have d: "drop (nat nin) xs = xs" if "nin \<le> 0"
    using that by simp
  show ?thesis
  proof (cases "PyTuple_CheckExact h args \<and> (int (length xs) \<le> nin \<or> xs = [])")
    case True
    from assms(2) [unfolded normalize_whole_eq [OF True]] assms(3) t d True show ?thesis
      by (auto simp: n dict_get_def exact_dict_def tuple_items_def cell_at_def nth_append
          split: if_splits)
  next
    case False
    from assms(2) [unfolded normalize_part_eq [OF False]] assms(3) t d show ?thesis
      by (auto simp: n dict_get_def exact_dict_def cell_at_def nth_append
          split: if_splits) (auto simp: tuple_items_def cell_at_def nth_append)
  qed
qed

lemma CheckOverride_cases:
  obtains
    (non_tuple) "tuple_items s args = None"
      "PyUFunc_CheckOverride h s u m args kwds nin = (Failure value_error_non_tuple, [], s)"
  | (too_many) xs where "tuple_items s args = Some xs" "NPY_MAXARGS h < length xs"
      "PyUFunc_CheckOverride h s u m args kwds nin = (Failure value_error_too_many, [], s)"
  | (no_override) xs where "tuple_items s args = Some xs" "length xs \<le> NPY_MAXARGS h"
      "discover h 0 xs = []"
      "PyUFunc_CheckOverride h s u m args kwds nin = (NoOverride, [], s)"
  | (loop) xs na nk s3 out tr where "tuple_items s args = Some xs"
      "length xs \<le> NPY_MAXARGS h" "discover h 0 xs \<noteq> []"
      "normalize h s args xs kwds nin = (na, nk, s3)"
      "call_loop h s3 u m na nk (discover h 0 xs) = (out, tr)"
      "PyUFunc_CheckOverride h s u m args kwds nin = (out, tr, s3)"
proof (cases "tuple_items s args")
  case None
  with non_tuple show ?thesis by (simp add: PyUFunc_CheckOverride_def)
next
  case (Some xs)
  show ?thesis
  proof (cases "NPY_MAXARGS h < length xs")
    case True
    with Some too_many show ?thesis by (simp add: PyUFunc_CheckOverride_def)
  next
    case small: False
    show ?thesis
    proof (cases "discover h 0 xs = []")
      case True
      with Some small no_override show ?thesis by (simp add: PyUFunc_CheckOverride_def)
    next
      case False
      obtain na nk s3 where n: "normalize h s args xs kwds nin = (na, nk, s3)"
        by (cases "normalize h s args xs kwds nin") auto
      obtain out tr where l: "call_loop h s3 u m na nk (discover h 0 xs) = (out, tr)"
        by (cases "call_loop h s3 u m na nk (discover h 0 xs)") auto
      from Some small False n l
      have "PyUFunc_CheckOverride h s u m args kwds nin = (out, tr, s3)"
        by (simp add: PyUFunc_CheckOverride_def)
      with Some small False n l loop show ?thesis by simp
    qed
  qed
qed


lemma calls_get_normal_kwds:
  assumes "tuple_items s args = Some xs"
    and "normalize h s args xs kwds nin = (na, nk, s3)"
    and "length xs \<le> NPY_MAXARGS h" and "discover h 0 xs \<noteq> []"
  shows "store_of (PyUFunc_CheckOverride h s ufunc meth args kwds nin) = s3 \<and>
         (\<forall>c\<in>set (calls_of (PyUFunc_CheckOverride h s ufunc meth args kwds nin)).
            call_kwds c = nk)"
proof (cases rule: CheckOverride_cases [of s args h ufunc meth kwds nin])
  case non_tuple
  with assms show ?thesis by simp
next
  case (too_many ys)
  with assms show ?thesis by simp
next
  case (no_override ys)
  with assms show ?thesis by simp
next
  case (loop ys na' nk' s3' out tr)
  with assms have eqs: "ys = xs" "na' = na" "nk' = nk" "s3' = s3"
    by simp_all
  from call_loop_calls [OF loop(5)] have "\<forall>c\<in>set tr. call_kwds c = nk"
    by (simp add: eqs)
  with loop(6) eqs show ?thesis
    by (simp add: store_of_def calls_of_def)
qed

subsection \<open>The first call\<close>

text \<open>
  In the first round no entry is \<^verbatim>\<open>NULL\<close>, so the inner loop reads no removed entry and
  a candidate is chosen; under transitivity no candidate is a subclass instance relative
  to it.
\<close>

lemma subtype_to_right_defined:
  "\<forall>e\<in>set rest. fst e \<noteq> None \<Longrightarrow> subtype_to_right h obj rest \<noteq> None"
  by (induction h obj rest rule: subtype_to_right.induct) auto

lemma choose_override_first_round:
  assumes "\<forall>e\<in>set wo. fst e \<noteq> None" and "wo \<noteq> []"
  shows "\<exists>k obj pos. choose_override h i wo = Chosen k obj pos"
  using assms
proof (induction wo arbitrary: i)
  case Nil
  then show ?case by simp
next
  case (Cons e rest)
  obtain x p where e: "e = (x, p)" by (cases e)
  with Cons.prems obtain ob where x: "x = Some ob" by auto
  from Cons.prems have all: "\<forall>e\<in>set rest. fst e \<noteq> None" by simp
  from subtype_to_right_defined [OF this] obtain b where
    b: "subtype_to_right h ob rest = Some b" by auto
  show ?case
  proof (cases b)
    case False
    with b e x show ?thesis by simp
  next
    case True
    with b have "rest \<noteq> []" by auto
    from Cons.IH [OF all this] obtain k obj pos where
      "choose_override h (Suc i) rest = Chosen k obj pos" by blast
    with b True e x show ?thesis by simp
  qed
qed

lemma call_loop_first_call:
  assumes "choose_override h 0 wo = Chosen k obj pos"
    and "PyObject_GetAttrString h obj = Inr f"
    and "call_loop h s u m na nk wo = (out, tr)"
  shows "tr \<noteq> [] \<and>
         hd tr = \<lparr>call_obj = obj, call_func = f,
                  call_args = \<lparr>oa_ufunc = u, oa_method = m, oa_pos = pos, oa_inputs = na\<rparr>,
                  call_kwds = nk\<rparr>"
  using assms(3)
proof (cases rule: call_loop_cases)
  case null
  with assms(1) show ?thesis by simp
next
  case none
  with assms(1) show ?thesis by simp
next
  case (attr i obj' pos' e)
  with assms(1,2) show ?thesis by simp
next
  case (raised i obj' pos' f' e)
  with assms(1,2) show ?thesis by simp
next
  case (result i obj' pos' f' r)
  with assms(1,2) show ?thesis by simp
next
  case (decline i obj' pos' f' tr')
  with assms(1,2) show ?thesis by simp
qed

lemma first_call:
  assumes "tuple_items s args = Some xs" and "length xs \<le> NPY_MAXARGS h"
    and "\<exists>x\<in>set xs. candidate h x"
    and "\<forall>x\<in>set xs. candidate h x \<longrightarrow> (\<exists>f. PyObject_GetAttrString h x = Inr f)"
    and "subtype_transitive h (filter (candidate h) xs)"
  shows "calls_of (PyUFunc_CheckOverride h s ufunc meth args kwds nin) \<noteq> [] \<and>
         (\<exists>pos<length xs.
            hd (positions (calls_of (PyUFunc_CheckOverride h s ufunc meth args kwds nin))) = pos \<and>
            call_obj (hd (calls_of (PyUFunc_CheckOverride h s ufunc meth args kwds nin))) = xs ! pos \<and>
            candidate h (xs ! pos) \<and>
            (\<forall>x\<in>set xs. candidate h x \<longrightarrow> \<not> subtype_instance h x (xs ! pos)))"
proof (cases rule: CheckOverride_cases [of s args h ufunc meth kwds nin])
  case non_tuple
  with assms(1) show ?thesis by simp
next
  case (too_many ys)
  with assms(1,2) show ?thesis by simp
next
  case (no_override ys)
  with assms(1,3) show ?thesis by (simp add: discover_empty)
next
  case (loop ys na nk s3 out tr)
  with assms(1) have ys: "ys = xs" by simp
  have some: "\<forall>e\<in>set (discover h 0 xs). fst e \<noteq> None"
    by (auto simp: discover_set)
  from choose_override_first_round [OF some loop(3) [unfolded ys]] obtain k obj pos where
    ch: "choose_override h 0 (discover h 0 xs) = Chosen k obj pos" by blast
  from choose_override_decomp [OF ch] have "(Some obj, pos) \<in> set (discover h 0 xs)"
    by auto
  then have pos: "pos < length xs" "obj = xs ! pos" "candidate h (xs ! pos)"
    by (auto simp: discover_set)
  with assms(4) obtain f where f: "PyObject_GetAttrString h obj = Inr f"
    by (metis nth_mem)
  from call_loop_first_call [OF ch f loop(5) [unfolded ys]]
  have tr: "tr \<noteq> []" "call_obj (hd tr) = obj" "oa_pos (call_args (hd tr)) = pos"
    by simp_all
  have "entries_of (discover h 0 xs) = set (filter (candidate h) xs)"
    by (simp add: entries_of_discover)
  with assms(5) have t: "subtype_trans_on h (entries_of (discover h 0 xs))"
    by (simp only: subtype_transitive_def subtype_trans_on_def)
  from chosen_not_blocked [OF ch t]
  have min: "\<forall>x\<in>set xs. candidate h x \<longrightarrow> \<not> subtype_instance h x (xs ! pos)"
    unfolding blocked_def discover_set pos(2) by (metis add_0 in_set_conv_nth)
  from tr have "hd (positions tr) = pos"
    by (simp add: positions_def hd_map)
  with tr pos min loop(6) show ?thesis
    by (auto simp: calls_of_def)
qed

section \<open>The claims\<close>

subsection \<open>C1: subclasses before superclasses\<close>

text \<open>
  The order of the calls: a call at position \<open>p\<close> comes after a call at position \<open>q\<close>
  when the operand at \<open>q\<close> is a subclass instance relative to the operand at \<open>p\<close>.
\<close>

lemma subclass_called_before:
  assumes "tuple_items s args = Some xs"
    and "subtype_transitive h (filter (candidate h) xs)"
    and "p < length xs" and "q < length xs"
    and "candidate h (xs ! p)" and "candidate h (xs ! q)"
    and "subtype_instance h (xs ! q) (xs ! p)"
    and "p \<in> set (positions (calls_of (PyUFunc_CheckOverride h s ufunc meth args kwds nin)))"
  shows "attempted_before q p
           (positions (calls_of (PyUFunc_CheckOverride h s ufunc meth args kwds nin)))"
proof (cases rule: CheckOverride_cases [of s args h ufunc meth kwds nin])
  case non_tuple
  with assms(8) show ?thesis by (simp add: calls_of_def positions_def)
next
  case (too_many xs)
  with assms(8) show ?thesis by (simp add: calls_of_def positions_def)
next
  case (no_override xs)
  with assms(8) show ?thesis by (simp add: calls_of_def positions_def)
next
  case (loop ys na nk s3 out tr)
  with assms(1) have ys: "ys = xs" by simp
  have "entries_of (discover h 0 xs) = set (filter (candidate h) xs)"
    by (simp add: entries_of_discover)
  with assms(2) have t: "subtype_trans_on h (entries_of (discover h 0 xs))"
    by (simp only: subtype_transitive_def subtype_trans_on_def)
  from assms(4,6) have sq: "(Some (xs ! q), q) \<in> set (discover h 0 xs)"
    by (simp add: discover_set)
  from assms(3,5) have pp: "(Some (xs ! p), p) \<in> set (discover h 0 xs)"
    by (simp add: discover_set)
  from assms(8) loop(6) have "p \<in> set (positions tr)"
    by (simp add: calls_of_def)
  from call_loop_subclass_first [OF loop(5) [unfolded ys] discover_distinct t sq pp assms(7) this]
  show ?thesis
    using loop(6) by (simp add: calls_of_def)
qed

text \<open>
  The order under transitivity. Let the test of line 141 be transitive on the candidates
  among the operands, and let the operand at position \<open>q\<close> be a subclass instance
  relative to the operand at position \<open>p\<close> (the types differ and it is an instance of
  the other's type), both being candidates, wherever \<open>p\<close> and \<open>q\<close> are in \<open>args\<close>. Then
  a call of the override at \<open>p\<close> comes only after a call of the override at \<open>q\<close>.
  Moreover, when \<open>args\<close> has at most \<^verbatim>\<open>NPY_MAXARGS\<close> items and the attribute lookups
  succeed, a first call is made; it is not at \<open>p\<close>, no candidate is a subclass instance
  relative to the operand called, and it is at \<open>q\<close> when the two are the only candidates.
\<close>

lemma subclass_before_superclass:
  assumes "tuple_items s args = Some xs"
    and "subtype_transitive h (filter (candidate h) xs)"
    and "p < length xs" and "q < length xs"
    and "candidate h (xs ! p)" and "candidate h (xs ! q)"
    and "subtype_instance h (xs ! q) (xs ! p)"
  shows "(p \<in> set (positions (calls_of (PyUFunc_CheckOverride h s ufunc meth args kwds nin))) \<longrightarrow>
           attempted_before q p
             (positions (calls_of (PyUFunc_CheckOverride h s ufunc meth args kwds nin)))) \<and>
         (length xs \<le> NPY_MAXARGS h \<and>
          (\<forall>x\<in>set xs. candidate h x \<longrightarrow> (\<exists>f. PyObject_GetAttrString h x = Inr f)) \<longrightarrow>
            calls_of (PyUFunc_CheckOverride h s ufunc meth args kwds nin) \<noteq> [] \<and>
            hd (positions (calls_of (PyUFunc_CheckOverride h s ufunc meth args kwds nin))) \<noteq> p \<and>
            (\<forall>x\<in>set xs. candidate h x \<longrightarrow>
               \<not> subtype_instance h x
                   (call_obj (hd (calls_of (PyUFunc_CheckOverride h s ufunc meth args kwds nin))))) \<and>
            ((\<forall>i<length xs. candidate h (xs ! i) \<longrightarrow> i = p \<or> i = q) \<longrightarrow>
               hd (positions (calls_of (PyUFunc_CheckOverride h s ufunc meth args kwds nin))) = q))"
proof (rule conjI; rule impI)
  assume "p \<in> set (positions (calls_of (PyUFunc_CheckOverride h s ufunc meth args kwds nin)))"
  with assms show "attempted_before q p
      (positions (calls_of (PyUFunc_CheckOverride h s ufunc meth args kwds nin)))"
    by (rule subclass_called_before)
next
  let ?R = "PyUFunc_CheckOverride h s ufunc meth args kwds nin"
  assume a: "length xs \<le> NPY_MAXARGS h \<and>
      (\<forall>x\<in>set xs. candidate h x \<longrightarrow> (\<exists>f. PyObject_GetAttrString h x = Inr f))"
  from assms(3,5) have ex: "\<exists>x\<in>set xs. candidate h x"
    by (metis nth_mem)
  from a have len: "length xs \<le> NPY_MAXARGS h"
    and look: "\<forall>x\<in>set xs. candidate h x \<longrightarrow> (\<exists>f. PyObject_GetAttrString h x = Inr f)"
    by simp_all
  from first_call [OF assms(1) len ex look assms(2), of ufunc meth kwds nin]
  obtain pos where ne: "calls_of ?R \<noteq> []" and pos: "pos < length xs"
    and hd: "hd (positions (calls_of ?R)) = pos" and obj: "call_obj (hd (calls_of ?R)) = xs ! pos"
    and cand: "candidate h (xs ! pos)"
    and least: "\<forall>x\<in>set xs. candidate h x \<longrightarrow> \<not> subtype_instance h x (xs ! pos)"
    by blast
  from assms(4,6) least have "\<not> subtype_instance h (xs ! q) (xs ! pos)"
    by (metis nth_mem)
  with assms(7) have np: "pos \<noteq> p"
    by auto
  have "pos = q" if "\<forall>i<length xs. candidate h (xs ! i) \<longrightarrow> i = p \<or> i = q"
    using that pos cand np by blast
  with ne hd obj least np
  show "calls_of ?R \<noteq> [] \<and> hd (positions (calls_of ?R)) \<noteq> p \<and>
      (\<forall>x\<in>set xs. candidate h x \<longrightarrow> \<not> subtype_instance h x (call_obj (hd (calls_of ?R)))) \<and>
      ((\<forall>i<length xs. candidate h (xs ! i) \<longrightarrow> i = p \<or> i = q) \<longrightarrow>
         hd (positions (calls_of ?R)) = q)"
    by simp
qed

text \<open>
  In \<open>host_sub\<close>, where \<open>Obj 2\<close> is a subclass instance relative to \<open>Obj 1\<close>: with
  \<open>args = (Obj 2, Obj 1)\<close> the override of \<open>Obj 2\<close> is called first and declines, then
  that of \<open>Obj 1\<close> is called; with \<open>args = (Obj 1, Obj 2)\<close> the first call is again
  that of \<open>Obj 2\<close>, now at position 1.
\<close>

lemma subclass_before_superclass_examples:
  "tuple_items [TupleCell [Obj 2, Obj 1]] (Ref 0) = Some [Obj 2, Obj 1] \<and>
   subtype_transitive host_sub (filter (candidate host_sub) [Obj 2, Obj 1]) \<and>
   candidate host_sub ([Obj 2, Obj 1] ! 1) \<and> candidate host_sub ([Obj 2, Obj 1] ! 0) \<and>
   subtype_instance host_sub ([Obj 2, Obj 1] ! 0) ([Obj 2, Obj 1] ! 1) \<and>
   positions (calls_of (PyUFunc_CheckOverride host_sub [TupleCell [Obj 2, Obj 1]]
      (Obj 4) ''__call__'' (Ref 0) None 2)) = [0, 1] \<and>
   attempted_before 0 1 (positions (calls_of (PyUFunc_CheckOverride host_sub
      [TupleCell [Obj 2, Obj 1]] (Obj 4) ''__call__'' (Ref 0) None 2))) \<and>
   tuple_items [TupleCell [Obj 1, Obj 2]] (Ref 0) = Some [Obj 1, Obj 2] \<and>
   subtype_transitive host_sub (filter (candidate host_sub) [Obj 1, Obj 2]) \<and>
   candidate host_sub ([Obj 1, Obj 2] ! 0) \<and> candidate host_sub ([Obj 1, Obj 2] ! 1) \<and>
   subtype_instance host_sub ([Obj 1, Obj 2] ! 1) ([Obj 1, Obj 2] ! 0) \<and>
   length [Obj 1, Obj 2] \<le> NPY_MAXARGS host_sub \<and>
   PyObject_GetAttrString host_sub (Obj 1) = Inr (Obj 21) \<and>
   PyObject_GetAttrString host_sub (Obj 2) = Inr (Obj 22) \<and>
   calls_of (PyUFunc_CheckOverride host_sub [TupleCell [Obj 1, Obj 2]]
      (Obj 4) ''__call__'' (Ref 0) None 2) \<noteq> [] \<and>
   hd (positions (calls_of (PyUFunc_CheckOverride host_sub [TupleCell [Obj 1, Obj 2]]
      (Obj 4) ''__call__'' (Ref 0) None 2))) = 1"
proof -
  let ?xs = "[Obj 2, Obj 1]"
  let ?ys = "[Obj 1, Obj 2]"
  have t: "tuple_items [TupleCell ?xs] (Ref 0) = Some ?xs"
    "tuple_items [TupleCell ?ys] (Ref 0) = Some ?ys"
    by (simp_all add: tuple_items_def cell_at_def)
  have c: "candidate host_sub (?xs ! 1)" "candidate host_sub (?xs ! 0)"
    "candidate host_sub (?ys ! 0)" "candidate host_sub (?ys ! 1)"
    by (simp_all add: candidate_def host_sub_def example_host_def)
  have s: "subtype_instance host_sub (?xs ! 0) (?xs ! 1)"
    "subtype_instance host_sub (?ys ! 1) (?ys ! 0)"
    by (simp_all add: subtype_instance_def host_sub_def example_host_def)
  have tr: "subtype_transitive host_sub (filter (candidate host_sub) ?xs)"
    "subtype_transitive host_sub (filter (candidate host_sub) ?ys)"
    by (simp_all add: subtype_transitive_def subtype_instance_def candidate_def host_sub_def
        example_host_def)
  have p: "positions (calls_of (PyUFunc_CheckOverride host_sub [TupleCell ?xs]
      (Obj 4) ''__call__'' (Ref 0) None 2)) = [0, 1]"
    by (simp add: PyUFunc_CheckOverride_def tuple_items_def cell_at_def normalize_def
        alloc_def new_kwds_def exact_dict_def set_out_def PyTuple_GetSlice_def
        call_loop.simps subtype_instance_def Let_def calls_of_def positions_def
        host_sub_def example_host_def)
  have m: "1 \<in> set (positions (calls_of (PyUFunc_CheckOverride host_sub [TupleCell ?xs]
      (Obj 4) ''__call__'' (Ref 0) None 2)))"
    unfolding p by simp
  have l: "length ?ys \<le> NPY_MAXARGS host_sub"
    by (simp add: host_sub_def example_host_def)
  have g: "PyObject_GetAttrString host_sub (Obj 1) = Inr (Obj 21)"
    "PyObject_GetAttrString host_sub (Obj 2) = Inr (Obj 22)"
    by (simp_all add: host_sub_def example_host_def)
  then have look: "\<forall>x\<in>set ?ys. candidate host_sub x \<longrightarrow>
      (\<exists>f. PyObject_GetAttrString host_sub x = Inr f)"
    by simp
  have two: "\<forall>i<length ?ys. candidate host_sub (?ys ! i) \<longrightarrow> i = 0 \<or> i = 1"
    by auto
  have lens: "1 < length ?xs" "0 < length ?xs" "0 < length ?ys" "1 < length ?ys"
    by simp_all
  from subclass_before_superclass [OF t(1) tr(1) lens(1,2) c(1,2) s(1), of
      "Obj 4" "''__call__''" None 2] m
  have 1: "attempted_before 0 1 (positions (calls_of (PyUFunc_CheckOverride host_sub
      [TupleCell ?xs] (Obj 4) ''__call__'' (Ref 0) None 2)))"
    by blast
  from subclass_before_superclass [OF t(2) tr(2) lens(3,4) c(3,4) s(2), of
      "Obj 4" "''__call__''" None 2] l look two
  have 2: "calls_of (PyUFunc_CheckOverride host_sub [TupleCell ?ys]
      (Obj 4) ''__call__'' (Ref 0) None 2) \<noteq> [] \<and>
    hd (positions (calls_of (PyUFunc_CheckOverride host_sub [TupleCell ?ys]
      (Obj 4) ''__call__'' (Ref 0) None 2))) = 1"
    by blast
  from t c s tr p 1 l g 2 show ?thesis
    by (intro conjI) (elim conjE, assumption)+
qed

text \<open>
  C1. The claim, that the override of a subclass instance is attempted before that of the
  operand it is a subclass instance of, is the order the header of the function gives
  (lines 10 and 11: subclasses before superclasses, otherwise left to right). The code
  does not keep it when the test of line 141 is not transitive. In \<open>host_virtual\<close> the
  operand at position 0 is a subclass instance relative to the operand at position 1,
  both are candidates, and the operand at position 2 makes the inner loop pass over
  position 0 but not over position 1: the override at position 1 is called first, returns
  the result, and is the only one called.
\<close>

theorem C1_superclass_called_first:
  "tuple_items [TupleCell [Obj 1, Obj 2, Obj 3]] (Ref 0) = Some [Obj 1, Obj 2, Obj 3] \<and>
   candidate host_virtual ([Obj 1, Obj 2, Obj 3] ! 0) \<and>
   candidate host_virtual ([Obj 1, Obj 2, Obj 3] ! 1) \<and>
   subtype_instance host_virtual ([Obj 1, Obj 2, Obj 3] ! 0) ([Obj 1, Obj 2, Obj 3] ! 1) \<and>
   PyUFunc_CheckOverride host_virtual [TupleCell [Obj 1, Obj 2, Obj 3]]
      (Obj 4) ''__call__'' (Ref 0) None 3 =
     (Result (Obj 50),
      [\<lparr>call_obj = Obj 2, call_func = Obj 22,
        call_args = \<lparr>oa_ufunc = Obj 4, oa_method = ''__call__'', oa_pos = 1,
                      oa_inputs = Ref 0\<rparr>,
        call_kwds = Ref 1\<rparr>],
      [TupleCell [Obj 1, Obj 2, Obj 3], DictCell Map.empty]) \<and>
   \<not> attempted_before 0 1 (positions (calls_of (PyUFunc_CheckOverride host_virtual
      [TupleCell [Obj 1, Obj 2, Obj 3]] (Obj 4) ''__call__'' (Ref 0) None 3)))"
  by (simp add: PyUFunc_CheckOverride_def tuple_items_def cell_at_def normalize_def
      alloc_def new_kwds_def exact_dict_def set_out_def PyTuple_GetSlice_def
      call_loop.simps subtype_instance_def Let_def calls_of_def positions_def
      candidate_def attempted_before_def host_virtual_def example_host_def)

subsection \<open>C2: entries set to NULL and the inner loop\<close>

text \<open>
  C2 says that a candidate already called takes no part in the subclass comparison of
  later rounds. The outer loop skips a \<^verbatim>\<open>NULL\<close> entry (line 130); the inner loop does
  not. In \<open>host_sub\<close> with \<open>args = (Obj 1, Obj 2)\<close> the first round chooses the subclass
  instance \<open>Obj 2\<close> at index 1, which declines; the second round examines \<open>Obj 1\<close> and
  compares it with the entry at index 1, now \<^verbatim>\<open>NULL\<close>: the function does not return, and
  the override of \<open>Obj 1\<close>, which would return \<open>Obj 50\<close>, is never called.
\<close>

theorem C2_removed_candidate_is_compared:
  "discover host_sub 0 [Obj 1, Obj 2] = [(Some (Obj 1), 0), (Some (Obj 2), 1)] \<and>
   subtype_instance host_sub (Obj 2) (Obj 1) \<and>
   choose_override host_sub 0 [(Some (Obj 1), 0), (Some (Obj 2), 1)] = Chosen 1 (Obj 2) 1 \<and>
   subtype_to_right host_sub (Obj 1) [(None, 1)] = None \<and>
   choose_override host_sub 0 [(Some (Obj 1), 0), (None, 1)] = NullArgument \<and>
   PyUFunc_CheckOverride host_sub [TupleCell [Obj 1, Obj 2]] (Obj 4) ''__call__'' (Ref 0)
     None 2 =
     (NullDeref,
      [\<lparr>call_obj = Obj 2, call_func = Obj 22,
        call_args = \<lparr>oa_ufunc = Obj 4, oa_method = ''__call__'', oa_pos = 1,
                      oa_inputs = Ref 0\<rparr>,
        call_kwds = Ref 1\<rparr>],
      [TupleCell [Obj 1, Obj 2], DictCell Map.empty])"
  by (simp add: PyUFunc_CheckOverride_def tuple_items_def cell_at_def normalize_def
        alloc_def new_kwds_def exact_dict_def set_out_def PyTuple_GetSlice_def
        PyDict_SetItemString_def call_loop.simps subtype_instance_def Let_def host_sub_def example_host_def)

subsection \<open>C3: no candidate, and all candidates declining\<close>

text \<open>
  The loop never ends with \<open>NoOverride\<close>, so that outcome means exactly that \<open>args\<close> is
  a tuple of at most \<^verbatim>\<open>NPY_MAXARGS\<close> items none of which is a candidate, and then nothing
  is called.
\<close>

lemma call_loop_not_NoOverride:
  assumes "call_loop h s u m na nk wo = (out, tr)"
  shows "out \<noteq> NoOverride"
  using assms
proof (induction "remaining wo" arbitrary: wo out tr rule: less_induct)
  case less
  from less.prems show ?case
  proof (cases rule: call_loop_cases)
    case (decline i obj pos f tr')
    have "remaining (wo[i := (None, pos)]) < remaining wo"
      using decline(1) by (rule remaining_decrease)
    from less.hyps [OF this decline(4)] show ?thesis .
  qed simp_all
qed

lemma NoOverride_iff:
  "outcome_of (PyUFunc_CheckOverride h s ufunc meth args kwds nin) = NoOverride \<longleftrightarrow>
   (\<exists>xs. tuple_items s args = Some xs \<and> length xs \<le> NPY_MAXARGS h \<and>
         (\<forall>x\<in>set xs. \<not> candidate h x))"
proof (cases rule: CheckOverride_cases [of s args h ufunc meth kwds nin])
  case non_tuple
  then show ?thesis by (simp add: outcome_of_def)
next
  case (too_many xs)
  then show ?thesis by (simp add: outcome_of_def)
next
  case (no_override xs)
  then show ?thesis by (simp add: outcome_of_def discover_empty)
next
  case (loop xs na nk s3 out tr)
  from call_loop_not_NoOverride [OF loop(5)] loop(1,3,6) show ?thesis
    by (simp add: outcome_of_def discover_empty)
qed

text \<open>
  When every call made declines, the function ends with the \<^verbatim>\<open>TypeError\<close> of line 159,
  unless an attribute lookup failed or a \<^verbatim>\<open>NULL\<close> entry reached the comparison. The
  latter cannot happen when no candidate is a subclass instance relative to another:
  then each round chooses the first entry that is not \<^verbatim>\<open>NULL\<close>.
\<close>

lemma all_declined_outcome:
  assumes "call_loop h s u m na nk wo = (out, tr)"
    and "\<forall>c\<in>set tr. call_result h s c = Inr (Py_NotImplemented h)"
  shows "out = Failure type_error_not_implemented \<or> out = NullDeref \<or>
         (\<exists>ob e. ob \<in> entries_of wo \<and> PyObject_GetAttrString h ob = Inl e \<and> out = Failure e)"
  using assms
proof (induction "remaining wo" arbitrary: wo out tr rule: less_induct)
  case less
  from less.prems(1) show ?case
  proof (cases rule: call_loop_cases)
    case null
    then show ?thesis by simp
  next
    case none
    then show ?thesis by simp
  next
    case (attr i obj pos e')
    from choose_override_decomp [OF attr(1)] have "obj \<in> entries_of wo"
      by (auto simp: entries_of_def)
    with attr show ?thesis by blast
  next
    case (raised i obj pos f e')
    with less.prems(2) show ?thesis by (simp add: call_result_def)
  next
    case (result i obj pos f r)
    with less.prems(2) show ?thesis by (simp add: call_result_def)
  next
    case (decline i obj pos f tr')
    from choose_override_decomp [OF decline(1)] obtain pre post where
      wo: "wo = pre @ (Some obj, pos) # post" and i: "i = length pre"
      by auto
    have sub: "entries_of (wo[i := (None, pos)]) \<subseteq> entries_of wo"
      by (auto simp: wo i entries_of_def)
    have "remaining (wo[i := (None, pos)]) < remaining wo"
      using decline(1) by (rule remaining_decrease)
    moreover from less.prems(2) decline(5)
    have "\<forall>c\<in>set tr'. call_result h s c = Inr (Py_NotImplemented h)"
      by simp
    ultimately have "out = Failure type_error_not_implemented \<or> out = NullDeref \<or>
         (\<exists>ob e. ob \<in> entries_of (wo[i := (None, pos)]) \<and>
            PyObject_GetAttrString h ob = Inl e \<and> out = Failure e)"
      using less.hyps decline(4) by blast
    with sub show ?thesis by blast
  qed
qed

lemma subtype_to_right_no_subclass:
  assumes "\<forall>e\<in>set ss. \<exists>ob. fst e = Some ob \<and> \<not> subtype_instance h ob obj"
  shows "subtype_to_right h obj ss = Some False"
  using assms by (induction h obj ss rule: subtype_to_right.induct) auto

lemma choose_override_skip_nulls:
  assumes "\<forall>e\<in>set ns. fst e = None"
  shows "choose_override h i (ns @ ss) = choose_override h (i + length ns) ss"
  using assms
proof (induction ns arbitrary: i)
  case Nil
  then show ?case by simp
next
  case (Cons e ns)
  obtain x p where e: "e = (x, p)" by (cases e)
  with Cons.prems have "x = None" by simp
  with Cons e show ?case by simp
qed

lemma call_loop_no_null_deref:
  assumes "call_loop h s u m na nk wo = (out, tr)"
    and "nulls_first wo"
    and "\<forall>a\<in>entries_of wo. \<forall>b\<in>entries_of wo. \<not> subtype_instance h a b"
  shows "out \<noteq> NullDeref"
  using assms
proof (induction "remaining wo" arbitrary: wo out tr rule: less_induct)
  case less
  from less.prems(2) obtain ns ss where wo: "wo = ns @ ss"
    and ns: "\<forall>e\<in>set ns. fst e = None" and ss: "\<forall>e\<in>set ss. fst e \<noteq> None"
    unfolding nulls_first_def by blast
  have ch: "choose_override h 0 wo = (case ss of [] \<Rightarrow> NoneLeft
      | e # rest \<Rightarrow> Chosen (length ns) (the (fst e)) (snd e))"
  proof (cases ss)
    case Nil
    with choose_override_skip_nulls [OF ns, of h 0 ss] wo show ?thesis by simp
  next
    case (Cons e rest)
    obtain x p where e: "e = (x, p)" by (cases e)
    with ss Cons obtain ob where x: "x = Some ob" by auto
    have "\<forall>e'\<in>set rest. \<exists>ob'. fst e' = Some ob' \<and> \<not> subtype_instance h ob' ob"
    proof
      fix e' assume m: "e' \<in> set rest"
      obtain x' p' where e': "e' = (x', p')" by (cases e')
      with ss Cons m obtain ob' where x': "x' = Some ob'" by auto
      from m e' x' Cons wo have "ob' \<in> entries_of wo"
        by (auto simp: entries_of_def)
      moreover from Cons e x wo have "ob \<in> entries_of wo"
        by (auto simp: entries_of_def)
      ultimately have "\<not> subtype_instance h ob' ob"
        using less.prems(3) by blast
      with e' x' show "\<exists>ob'. fst e' = Some ob' \<and> \<not> subtype_instance h ob' ob"
        by simp
    qed
    then have "subtype_to_right h ob rest = Some False"
      by (rule subtype_to_right_no_subclass)
    with choose_override_skip_nulls [OF ns, of h 0 ss] wo Cons e x show ?thesis
      by simp
  qed
  from less.prems(1) show ?case
  proof (cases rule: call_loop_cases)
    case null
    with ch show ?thesis by (simp split: list.splits)
  next
    case (decline i obj pos f tr')
    from decline(1) ch obtain rest where ssr: "ss = (Some obj, pos) # rest" and i: "i = length ns"
      using ss by (cases ss) (auto split: list.splits)
    have upd: "wo[i := (None, pos)] = (ns @ [(None, pos)]) @ rest"
      by (simp add: wo ssr i)
    from ns ss ssr have nf: "nulls_first (wo[i := (None, pos)])"
      unfolding nulls_first_def upd by (intro exI [of _ "ns @ [(None, pos)]"] exI [of _ rest]) simp
    have "entries_of (wo[i := (None, pos)]) \<subseteq> entries_of wo"
      unfolding upd by (auto simp: wo ssr entries_of_def)
    with less.prems(3)
    have ns': "\<forall>a\<in>entries_of (wo[i := (None, pos)]).
        \<forall>b\<in>entries_of (wo[i := (None, pos)]). \<not> subtype_instance h a b"
      by blast
    have "remaining (wo[i := (None, pos)]) < remaining wo"
      using decline(1) by (rule remaining_decrease)
    from less.hyps [OF this decline(4) nf ns'] show ?thesis .
  qed simp_all
qed

lemma discover_nulls_first: "nulls_first (discover h i xs)"
proof -
  have "\<forall>e\<in>set (discover h i xs). fst e \<noteq> None"
    by (induction xs arbitrary: i) auto
  then have "discover h i xs = [] @ discover h i xs \<and> (\<forall>e\<in>set ([]::overrides). fst e = None) \<and>
      (\<forall>e\<in>set (discover h i xs). fst e \<noteq> None)"
    by simp
  then show ?thesis
    unfolding nulls_first_def by blast
qed

lemma all_decline_without_subclass:
  assumes "tuple_items s args = Some xs" and "length xs \<le> NPY_MAXARGS h"
    and "\<exists>x\<in>set xs. candidate h x"
    and "\<forall>a\<in>set xs. \<forall>b\<in>set xs. candidate h a \<and> candidate h b \<longrightarrow> \<not> subtype_instance h a b"
    and "\<forall>x\<in>set xs. candidate h x \<longrightarrow> (\<exists>f. PyObject_GetAttrString h x = Inr f)"
    and "\<forall>c\<in>set (calls_of (PyUFunc_CheckOverride h s ufunc meth args kwds nin)).
           call_result h (store_of (PyUFunc_CheckOverride h s ufunc meth args kwds nin)) c =
             Inr (Py_NotImplemented h)"
  shows "outcome_of (PyUFunc_CheckOverride h s ufunc meth args kwds nin) =
           Failure type_error_not_implemented"
proof (cases rule: CheckOverride_cases [of s args h ufunc meth kwds nin])
  case non_tuple
  with assms(1) show ?thesis by simp
next
  case (too_many ys)
  with assms(1,2) show ?thesis by simp
next
  case (no_override ys)
  with assms(1,3) show ?thesis by (simp add: discover_empty)
next
  case (loop ys na nk s3 out tr)
  with assms(1) have ys: "ys = xs" by simp
  from assms(4) have ns: "\<forall>a\<in>entries_of (discover h 0 ys). \<forall>b\<in>entries_of (discover h 0 ys).
      \<not> subtype_instance h a b"
    by (simp add: entries_of_discover ys)
  from assms(6) loop(6) have "\<forall>c\<in>set tr. call_result h s3 c = Inr (Py_NotImplemented h)"
    by (simp add: calls_of_def store_of_def)
  from all_declined_outcome [OF loop(5) this]
    call_loop_no_null_deref [OF loop(5) discover_nulls_first ns] assms(5)
  have "out = Failure type_error_not_implemented"
    by (auto simp: entries_of_discover ys)
  with loop(6) show ?thesis by (simp add: outcome_of_def)
qed

text \<open>
  C3 says that when every override called declines, the outcome is the \<^verbatim>\<open>TypeError\<close> of
  line 159. In \<open>host_decline\<close> with \<open>args = (Obj 0, Obj 1, Obj 2)\<close> there are two
  candidates and both overrides decline whenever called, but only \<open>Obj 2\<close> is called:
  the second round hands the \<^verbatim>\<open>NULL\<close> entry to the comparison and the function does
  not return.
\<close>

theorem C3_all_decline_without_type_error:
  "discover host_decline 0 [Obj 0, Obj 1, Obj 2] = [(Some (Obj 1), 1), (Some (Obj 2), 2)] \<and>
   PyObject_Call host_decline
     [TupleCell [Obj 0, Obj 1, Obj 2], DictCell Map.empty]
     (Obj 21) \<lparr>oa_ufunc = Obj 4, oa_method = ''__call__'', oa_pos = 1, oa_inputs = Ref 0\<rparr>
     (Ref 1) = Inr (Py_NotImplemented host_decline) \<and>
   PyObject_Call host_decline
     [TupleCell [Obj 0, Obj 1, Obj 2], DictCell Map.empty]
     (Obj 22) \<lparr>oa_ufunc = Obj 4, oa_method = ''__call__'', oa_pos = 2, oa_inputs = Ref 0\<rparr>
     (Ref 1) = Inr (Py_NotImplemented host_decline) \<and>
   PyUFunc_CheckOverride host_decline [TupleCell [Obj 0, Obj 1, Obj 2]] (Obj 4) ''__call__''
     (Ref 0) None 3 =
     (NullDeref,
      [\<lparr>call_obj = Obj 2, call_func = Obj 22,
        call_args = \<lparr>oa_ufunc = Obj 4, oa_method = ''__call__'', oa_pos = 2,
                      oa_inputs = Ref 0\<rparr>,
        call_kwds = Ref 1\<rparr>],
      [TupleCell [Obj 0, Obj 1, Obj 2], DictCell Map.empty]) \<and>
   outcome_of (PyUFunc_CheckOverride host_decline [TupleCell [Obj 0, Obj 1, Obj 2]] (Obj 4)
     ''__call__'' (Ref 0) None 3) \<noteq> Failure type_error_not_implemented"
  by (simp add: PyUFunc_CheckOverride_def tuple_items_def cell_at_def normalize_def
        alloc_def new_kwds_def exact_dict_def set_out_def PyTuple_GetSlice_def
        PyDict_SetItemString_def call_loop.simps subtype_instance_def Let_def
        outcome_of_def host_decline_def example_host_def)

subsection \<open>C4: what an override is called with\<close>

text \<open>
  C4. Every call made has the arguments \<open>(ufunc, method_name, pos, normal_args)\<close> and the
  keywords \<open>normal_kwds\<close>, where \<open>pos\<close> is the index in \<open>args\<close> of the operand whose
  attribute is called, that operand is a candidate, and \<open>normal_args\<close> is a tuple of the
  first \<open>nin\<close> items of \<open>args\<close>. When there is a single candidate and its call returns a
  value other than \<^verbatim>\<open>Py_NotImplemented\<close>, that value is the result and the call is the only
  one made.
\<close>

theorem C4_override_call_arguments:
  assumes "tuple_items s args = Some xs"
    and "normalize h s args xs kwds nin = (na, nk, s3)"
  shows "(\<forall>c\<in>set (calls_of (PyUFunc_CheckOverride h s ufunc meth args kwds nin)).
            oa_ufunc (call_args c) = ufunc \<and> oa_method (call_args c) = meth \<and>
            oa_pos (call_args c) < length xs \<and> xs ! oa_pos (call_args c) = call_obj c \<and>
            candidate h (call_obj c) \<and>
            PyObject_GetAttrString h (call_obj c) = Inr (call_func c) \<and>
            oa_inputs (call_args c) = na \<and> call_kwds c = nk \<and>
            store_of (PyUFunc_CheckOverride h s ufunc meth args kwds nin) = s3 \<and>
            tuple_items s3 na = Some (take (nat nin) xs)) \<and>
         (\<forall>obj pos f r.
            length xs \<le> NPY_MAXARGS h \<and> discover h 0 xs = [(Some obj, pos)] \<and>
            PyObject_GetAttrString h obj = Inr f \<and>
            PyObject_Call h s3 f
              \<lparr>oa_ufunc = ufunc, oa_method = meth, oa_pos = pos, oa_inputs = na\<rparr> nk = Inr r \<and>
            r \<noteq> Py_NotImplemented h \<longrightarrow>
            outcome_of (PyUFunc_CheckOverride h s ufunc meth args kwds nin) = Result r \<and>
            calls_of (PyUFunc_CheckOverride h s ufunc meth args kwds nin) =
              [\<lparr>call_obj = obj, call_func = f,
                call_args = \<lparr>oa_ufunc = ufunc, oa_method = meth, oa_pos = pos,
                              oa_inputs = na\<rparr>,
                call_kwds = nk\<rparr>])"
proof (rule conjI; intro ballI allI impI)
  fix c
  assume c: "c \<in> set (calls_of (PyUFunc_CheckOverride h s ufunc meth args kwds nin))"
  show "oa_ufunc (call_args c) = ufunc \<and> oa_method (call_args c) = meth \<and>
        oa_pos (call_args c) < length xs \<and> xs ! oa_pos (call_args c) = call_obj c \<and>
        candidate h (call_obj c) \<and>
        PyObject_GetAttrString h (call_obj c) = Inr (call_func c) \<and>
        oa_inputs (call_args c) = na \<and> call_kwds c = nk \<and>
        store_of (PyUFunc_CheckOverride h s ufunc meth args kwds nin) = s3 \<and>
        tuple_items s3 na = Some (take (nat nin) xs)"
  proof (cases rule: CheckOverride_cases [of s args h ufunc meth kwds nin])
    case non_tuple
    with c show ?thesis by (simp add: calls_of_def)
  next
    case (too_many ys)
    with c show ?thesis by (simp add: calls_of_def)
  next
    case (no_override ys)
    with c show ?thesis by (simp add: calls_of_def)
  next
    case (loop ys na' nk' s3' out tr)
    with assms have eqs: "ys = xs" "na' = na" "nk' = nk" "s3' = s3"
      by simp_all
    from c loop(6) have "c \<in> set tr"
      by (simp add: calls_of_def)
    from call_loop_calls [OF loop(5) this]
    have e: "(Some (call_obj c), oa_pos (call_args c)) \<in> set (discover h 0 xs)"
      and r: "PyObject_GetAttrString h (call_obj c) = Inr (call_func c)"
        "oa_ufunc (call_args c) = ufunc" "oa_method (call_args c) = meth"
        "oa_inputs (call_args c) = na" "call_kwds c = nk"
      by (simp_all add: eqs)
    from e have "oa_pos (call_args c) < length xs \<and> xs ! oa_pos (call_args c) = call_obj c \<and>
        candidate h (call_obj c)"
      by (auto simp: discover_set)
    moreover from tuple_items_normal_args [OF assms(1,2)]
    have "tuple_items s3 na = Some (take (nat nin) xs)" .
    ultimately show ?thesis
      using r loop(6) eqs by (simp add: store_of_def)
  qed
next
  fix obj pos f r
  assume a: "length xs \<le> NPY_MAXARGS h \<and> discover h 0 xs = [(Some obj, pos)] \<and>
            PyObject_GetAttrString h obj = Inr f \<and>
            PyObject_Call h s3 f
              \<lparr>oa_ufunc = ufunc, oa_method = meth, oa_pos = pos, oa_inputs = na\<rparr> nk = Inr r \<and>
            r \<noteq> Py_NotImplemented h"
  have "call_loop h s3 ufunc meth na nk [(Some obj, pos)] =
          (Result r, [\<lparr>call_obj = obj, call_func = f,
                call_args = \<lparr>oa_ufunc = ufunc, oa_method = meth, oa_pos = pos,
                              oa_inputs = na\<rparr>,
                call_kwds = nk\<rparr>])"
    using a by (simp add: call_loop.simps [of _ _ _ _ _ _ "[(Some obj, pos)]"])
  with a assms
  have "PyUFunc_CheckOverride h s ufunc meth args kwds nin =
          (Result r, [\<lparr>call_obj = obj, call_func = f,
                call_args = \<lparr>oa_ufunc = ufunc, oa_method = meth, oa_pos = pos,
                              oa_inputs = na\<rparr>,
                call_kwds = nk\<rparr>], s3)"
    by (simp add: PyUFunc_CheckOverride_def)
  then show "outcome_of (PyUFunc_CheckOverride h s ufunc meth args kwds nin) = Result r \<and>
    calls_of (PyUFunc_CheckOverride h s ufunc meth args kwds nin) =
              [\<lparr>call_obj = obj, call_func = f,
                call_args = \<lparr>oa_ufunc = ufunc, oa_method = meth, oa_pos = pos,
                              oa_inputs = na\<rparr>,
                call_kwds = nk\<rparr>]"
    by (simp add: outcome_of_def calls_of_def)
qed

text \<open>
  In \<open>host_accept\<close> with \<open>args = (Obj 1, Obj 7)\<close>, \<open>nin = 1\<close> and the keywords of
  \<open>store_kw\<close>, the single candidate \<open>Obj 1\<close> is called once, with position 0 and the
  tuple \<open>(Obj 1)\<close>.
\<close>

theorem C4_override_call_arguments_witness:
  "tuple_items store_kw (Ref 0) = Some [Obj 1, Obj 7] \<and>
   normalize host_accept store_kw (Ref 0) [Obj 1, Obj 7] (Some (Ref 1)) 1 =
     (Ref 2, Ref 3,
      store_kw @ [TupleCell [Obj 1], DictCell [''where'' \<mapsto> Obj 6, ''out'' \<mapsto> Obj 7]]) \<and>
   length [Obj 1, Obj 7] \<le> NPY_MAXARGS host_accept \<and>
   discover host_accept 0 [Obj 1, Obj 7] = [(Some (Obj 1), 0)] \<and>
   PyObject_GetAttrString host_accept (Obj 1) = Inr (Obj 21) \<and>
   PyObject_Call host_accept
     (store_kw @ [TupleCell [Obj 1], DictCell [''where'' \<mapsto> Obj 6, ''out'' \<mapsto> Obj 7]])
     (Obj 21)
     \<lparr>oa_ufunc = Obj 4, oa_method = ''reduce'', oa_pos = 0, oa_inputs = Ref 2\<rparr> (Ref 3) =
     Inr (Obj 50) \<and>
   Obj 50 \<noteq> Py_NotImplemented host_accept \<and>
   outcome_of (PyUFunc_CheckOverride host_accept store_kw (Obj 4) ''reduce'' (Ref 0)
      (Some (Ref 1)) 1) = Result (Obj 50) \<and>
   calls_of (PyUFunc_CheckOverride host_accept store_kw (Obj 4) ''reduce'' (Ref 0)
      (Some (Ref 1)) 1) =
     [\<lparr>call_obj = Obj 1, call_func = Obj 21,
       call_args = \<lparr>oa_ufunc = Obj 4, oa_method = ''reduce'', oa_pos = 0, oa_inputs = Ref 2\<rparr>,
       call_kwds = Ref 3\<rparr>] \<and>
   tuple_items
     (store_kw @ [TupleCell [Obj 1], DictCell [''where'' \<mapsto> Obj 6, ''out'' \<mapsto> Obj 7]])
     (Ref 2) = Some (take (nat 1) [Obj 1, Obj 7])"
proof -
  let ?s3 = "store_kw @ [TupleCell [Obj 1], DictCell [''where'' \<mapsto> Obj 6, ''out'' \<mapsto> Obj 7]]"
  have t: "tuple_items store_kw (Ref 0) = Some [Obj 1, Obj 7]"
    by (simp add: store_kw_def tuple_items_def cell_at_def)
  have n: "normalize host_accept store_kw (Ref 0) [Obj 1, Obj 7] (Some (Ref 1)) 1 = (Ref 2, Ref 3, ?s3)"
    by (simp add: store_kw_def host_accept_def example_host_def normalize_def alloc_def new_kwds_def exact_dict_def cell_at_def
        set_out_def PyTuple_GetSlice_def PyDict_SetItemString_def Let_def)
  have h: "length [Obj 1, Obj 7] \<le> NPY_MAXARGS host_accept \<and>
      discover host_accept 0 [Obj 1, Obj 7] = [(Some (Obj 1), 0)] \<and>
      PyObject_GetAttrString host_accept (Obj 1) = Inr (Obj 21) \<and>
      PyObject_Call host_accept ?s3 (Obj 21)
        \<lparr>oa_ufunc = Obj 4, oa_method = ''reduce'', oa_pos = 0, oa_inputs = Ref 2\<rparr> (Ref 3) =
        Inr (Obj 50) \<and>
      Obj 50 \<noteq> Py_NotImplemented host_accept"
    by (simp add: host_accept_def example_host_def)
  note claim = C4_override_call_arguments [OF t n, of "Obj 4" "''reduce''"]
  from claim [THEN conjunct2, rule_format, of "Obj 1" 0 "Obj 21" "Obj 50", OF h]
  have r: "outcome_of (PyUFunc_CheckOverride host_accept store_kw (Obj 4) ''reduce''
        (Ref 0) (Some (Ref 1)) 1) = Result (Obj 50) \<and>
      calls_of (PyUFunc_CheckOverride host_accept store_kw (Obj 4) ''reduce'' (Ref 0)
        (Some (Ref 1)) 1) =
      [\<lparr>call_obj = Obj 1, call_func = Obj 21,
        call_args = \<lparr>oa_ufunc = Obj 4, oa_method = ''reduce'', oa_pos = 0, oa_inputs = Ref 2\<rparr>,
        call_kwds = Ref 3\<rparr>]" .
  then have "\<lparr>call_obj = Obj 1, call_func = Obj 21,
        call_args = \<lparr>oa_ufunc = Obj 4, oa_method = ''reduce'', oa_pos = 0, oa_inputs = Ref 2\<rparr>,
        call_kwds = Ref 3\<rparr>
      \<in> set (calls_of (PyUFunc_CheckOverride host_accept store_kw (Obj 4) ''reduce'' (Ref 0)
        (Some (Ref 1)) 1))"
    by simp
  from claim [THEN conjunct1, rule_format, OF this]
  have "tuple_items ?s3 (Ref 2) = Some (take (nat 1) [Obj 1, Obj 7])"
    by (elim conjE)
  with t n h r show ?thesis by simp
qed

subsection \<open>C5: the checks on the arguments\<close>

text \<open>
  C5, as amended. When \<open>args\<close> is not a tuple, or has more than \<^verbatim>\<open>NPY_MAXARGS\<close> items,
  the function fails with its \<^verbatim>\<open>ValueError\<close> and calls nothing. \<open>nin\<close> is not checked:
  a \<open>nin\<close> beyond the length of \<open>args\<close> gives what \<open>nin = len(args)\<close> gives.
\<close>

theorem C5_argument_checks:
  "(tuple_items s args = None \<longrightarrow>
      PyUFunc_CheckOverride h s ufunc meth args kwds nin =
        (Failure value_error_non_tuple, [], s)) \<and>
   (\<forall>xs. tuple_items s args = Some xs \<and> NPY_MAXARGS h < length xs \<longrightarrow>
      PyUFunc_CheckOverride h s ufunc meth args kwds nin =
        (Failure value_error_too_many, [], s)) \<and>
   (\<forall>xs. tuple_items s args = Some xs \<and> int (length xs) \<le> nin \<longrightarrow>
      PyUFunc_CheckOverride h s ufunc meth args kwds nin =
        PyUFunc_CheckOverride h s ufunc meth args kwds (int (length xs)))"
proof (intro conjI allI impI)
  assume "tuple_items s args = None"
  then show "PyUFunc_CheckOverride h s ufunc meth args kwds nin =
      (Failure value_error_non_tuple, [], s)"
    by (simp add: PyUFunc_CheckOverride_def)
next
  fix xs
  assume "tuple_items s args = Some xs \<and> NPY_MAXARGS h < length xs"
  then show "PyUFunc_CheckOverride h s ufunc meth args kwds nin =
      (Failure value_error_too_many, [], s)"
    by (simp add: PyUFunc_CheckOverride_def)
next
  fix xs
  assume a: "tuple_items s args = Some xs \<and> int (length xs) \<le> nin"
  then have t: "tuple_items s args = Some xs" and le: "int (length xs) \<le> nin"
    by simp_all
  from le have n: "normalize h s args xs kwds nin = normalize h s args xs kwds (int (length xs))"
    by (rule normalize_nin_large)
  show "PyUFunc_CheckOverride h s ufunc meth args kwds nin =
      PyUFunc_CheckOverride h s ufunc meth args kwds (int (length xs))"
    unfolding PyUFunc_CheckOverride_def t option.case n ..
qed

text \<open>
  A dictionary in place of \<open>args\<close>; a tuple of 33 items; \<open>nin = 5\<close> with two arguments.
\<close>

theorem C5_argument_checks_witness:
  "tuple_items store_kw (Ref 1) = None \<and>
   PyUFunc_CheckOverride host_accept store_kw (Obj 4) ''__call__'' (Ref 1) None 1 =
     (Failure value_error_non_tuple, [], store_kw) \<and>
   tuple_items [TupleCell (replicate 33 (Obj 1))] (Ref 0) = Some (replicate 33 (Obj 1)) \<and>
   NPY_MAXARGS host_accept < length (replicate 33 (Obj 1)) \<and>
   PyUFunc_CheckOverride host_accept [TupleCell (replicate 33 (Obj 1))] (Obj 4) ''__call__''
     (Ref 0) None 2 =
     (Failure value_error_too_many, [], [TupleCell (replicate 33 (Obj 1))]) \<and>
   tuple_items store_kw (Ref 0) = Some [Obj 1, Obj 7] \<and>
   int (length [Obj 1, Obj 7]) \<le> 5 \<and>
   PyUFunc_CheckOverride host_accept store_kw (Obj 4) ''__call__'' (Ref 0) None 5 =
     PyUFunc_CheckOverride host_accept store_kw (Obj 4) ''__call__'' (Ref 0) None
       (int (length [Obj 1, Obj 7]))"
proof -
  have a: "tuple_items store_kw (Ref 1) = None"
    by (simp add: store_kw_def tuple_items_def cell_at_def)
  have b: "tuple_items [TupleCell (replicate 33 (Obj 1))] (Ref 0) = Some (replicate 33 (Obj 1)) \<and>
      NPY_MAXARGS host_accept < length (replicate 33 (Obj 1))"
    by (simp add: tuple_items_def cell_at_def host_accept_def example_host_def)
  have c: "tuple_items store_kw (Ref 0) = Some [Obj 1, Obj 7] \<and> int (length [Obj 1, Obj 7]) \<le> 5"
    by (simp add: store_kw_def tuple_items_def cell_at_def)
  from C5_argument_checks [of store_kw "Ref 1" host_accept "Obj 4" "''__call__''" None 1] a
  have 1: "PyUFunc_CheckOverride host_accept store_kw (Obj 4) ''__call__'' (Ref 1) None 1 =
     (Failure value_error_non_tuple, [], store_kw)"
    by blast
  from C5_argument_checks [of "[TupleCell (replicate 33 (Obj 1))]" "Ref 0" host_accept
      "Obj 4" "''__call__''" None 2] b
  have 2: "PyUFunc_CheckOverride host_accept [TupleCell (replicate 33 (Obj 1))] (Obj 4)
     ''__call__'' (Ref 0) None 2 =
     (Failure value_error_too_many, [], [TupleCell (replicate 33 (Obj 1))])"
    by blast
  from C5_argument_checks [of store_kw "Ref 0" host_accept "Obj 4" "''__call__''" None 5] c
  have 3: "PyUFunc_CheckOverride host_accept store_kw (Obj 4) ''__call__'' (Ref 0) None 5 =
     PyUFunc_CheckOverride host_accept store_kw (Obj 4) ''__call__'' (Ref 0) None
       (int (length [Obj 1, Obj 7]))"
    by blast
  from a b c 1 2 3 show ?thesis by blast
qed

text \<open>
  C5 as stated fails for \<open>nin\<close>: with two arguments, \<open>nin = 5\<close> and \<open>nin = -3\<close> both end
  in the result of the override, not in a failure.
\<close>

theorem C5_counterexample:
  "tuple_items store_kw (Ref 0) = Some [Obj 1, Obj 7] \<and>
   length [Obj 1, Obj 7] \<le> NPY_MAXARGS host_accept \<and>
   int (length [Obj 1, Obj 7]) < 5 \<and>
   outcome_of (PyUFunc_CheckOverride host_accept store_kw (Obj 4) ''__call__'' (Ref 0) None 5) =
     Result (Obj 50) \<and>
   (- 3 :: int) < 0 \<and>
   outcome_of (PyUFunc_CheckOverride host_accept store_kw (Obj 4) ''__call__'' (Ref 0) None (- 3)) =
     Result (Obj 50)"
  by (simp add: PyUFunc_CheckOverride_def tuple_items_def cell_at_def normalize_def
      alloc_def new_kwds_def exact_dict_def set_out_def PyTuple_GetSlice_def
      PyDict_SetItemString_def call_loop.simps Let_def outcome_of_def
      store_kw_def host_accept_def example_host_def)

subsection \<open>C6: the "out" entry\<close>

text \<open>
  C6. When there is a candidate and \<open>args\<close> has more than \<open>nin\<close> items, every call made
  gets the dictionary \<open>normal_kwds\<close>, whose \<^verbatim>\<open>"out"\<close> entry is the last argument itself when
  there is exactly one argument after the first \<open>nin\<close>, and otherwise a tuple of the
  arguments from index \<open>nin\<close> on, in order (all of them when \<open>nin\<close> is negative).
\<close>

theorem C6_out_entry:
  assumes "tuple_items s args = Some xs"
    and "length xs \<le> NPY_MAXARGS h" and "\<exists>x\<in>set xs. candidate h x"
    and "nin < int (length xs)"
    and "normalize h s args xs kwds nin = (na, nk, s3)"
  shows "store_of (PyUFunc_CheckOverride h s ufunc meth args kwds nin) = s3 \<and>
         (\<forall>c\<in>set (calls_of (PyUFunc_CheckOverride h s ufunc meth args kwds nin)).
            call_kwds c = nk) \<and>
         (if int (length xs) - nin = 1
          then dict_get s3 nk ''out'' = Some (xs ! (length xs - 1))
          else (\<exists>r. dict_get s3 nk ''out'' = Some r \<and>
                    tuple_items s3 r = Some (drop (nat nin) xs)))"
proof -
  from assms(3) have cand: "discover h 0 xs \<noteq> []"
    by (simp add: discover_empty)
  from dict_get_out [OF assms(1,5,4)] calls_get_normal_kwds [OF assms(1,5,2) cand]
  show ?thesis
    by blast
qed

text \<open>
  With \<open>nin = 2\<close>: three arguments give \<^verbatim>\<open>"out"\<close> the third argument, four arguments give
  it a tuple of the third and the fourth.
\<close>

theorem C6_out_entry_witness:
  "tuple_items [TupleCell [Obj 0, Obj 1, Obj 7]] (Ref 0) = Some [Obj 0, Obj 1, Obj 7] \<and>
   length [Obj 0, Obj 1, Obj 7] \<le> NPY_MAXARGS host_accept \<and>
   (\<exists>x\<in>set [Obj 0, Obj 1, Obj 7]. candidate host_accept x) \<and>
   2 < int (length [Obj 0, Obj 1, Obj 7]) \<and>
   normalize host_accept [TupleCell [Obj 0, Obj 1, Obj 7]] (Ref 0) [Obj 0, Obj 1, Obj 7] None 2 =
     (Ref 1, Ref 2,
      [TupleCell [Obj 0, Obj 1, Obj 7], TupleCell [Obj 0, Obj 1],
       DictCell [''out'' \<mapsto> Obj 7]]) \<and>
   dict_get [TupleCell [Obj 0, Obj 1, Obj 7], TupleCell [Obj 0, Obj 1],
             DictCell [''out'' \<mapsto> Obj 7]] (Ref 2) ''out'' = Some ([Obj 0, Obj 1, Obj 7] ! 2) \<and>
   map call_kwds (calls_of (PyUFunc_CheckOverride host_accept [TupleCell [Obj 0, Obj 1, Obj 7]]
      (Obj 4) ''__call__'' (Ref 0) None 2)) = [Ref 2] \<and>
   tuple_items [TupleCell [Obj 0, Obj 1, Obj 7, Obj 8]] (Ref 0) =
     Some [Obj 0, Obj 1, Obj 7, Obj 8] \<and>
   (\<exists>x\<in>set [Obj 0, Obj 1, Obj 7, Obj 8]. candidate host_accept x) \<and>
   normalize host_accept [TupleCell [Obj 0, Obj 1, Obj 7, Obj 8]] (Ref 0) [Obj 0, Obj 1, Obj 7, Obj 8] None 2 =
     (Ref 1, Ref 2,
      [TupleCell [Obj 0, Obj 1, Obj 7, Obj 8], TupleCell [Obj 0, Obj 1],
       DictCell [''out'' \<mapsto> Ref 3], TupleCell [Obj 7, Obj 8]]) \<and>
   (\<exists>r. dict_get [TupleCell [Obj 0, Obj 1, Obj 7, Obj 8], TupleCell [Obj 0, Obj 1],
                   DictCell [''out'' \<mapsto> Ref 3], TupleCell [Obj 7, Obj 8]] (Ref 2) ''out'' =
          Some r \<and>
        tuple_items [TupleCell [Obj 0, Obj 1, Obj 7, Obj 8], TupleCell [Obj 0, Obj 1],
                     DictCell [''out'' \<mapsto> Ref 3], TupleCell [Obj 7, Obj 8]] r =
          Some [Obj 7, Obj 8])"
proof -
  let ?xs = "[Obj 0, Obj 1, Obj 7]"
  let ?ys = "[Obj 0, Obj 1, Obj 7, Obj 8]"
  let ?s3 = "[TupleCell ?xs, TupleCell [Obj 0, Obj 1], DictCell [''out'' \<mapsto> Obj 7]]"
  let ?t3 = "[TupleCell ?ys, TupleCell [Obj 0, Obj 1], DictCell [''out'' \<mapsto> Ref 3],
              TupleCell [Obj 7, Obj 8]]"
  have t: "tuple_items [TupleCell ?xs] (Ref 0) = Some ?xs"
    "tuple_items [TupleCell ?ys] (Ref 0) = Some ?ys"
    by (simp_all add: tuple_items_def cell_at_def)
  have l: "length ?xs \<le> NPY_MAXARGS host_accept" "length ?ys \<le> NPY_MAXARGS host_accept"
    by (simp_all add: host_accept_def example_host_def)
  have d: "\<exists>x\<in>set ?xs. candidate host_accept x" "\<exists>x\<in>set ?ys. candidate host_accept x"
    by (simp_all add: candidate_def host_accept_def example_host_def)
  have m: "2 < int (length ?xs)" "2 < int (length ?ys)"
    by simp_all
  have n: "normalize host_accept [TupleCell ?xs] (Ref 0) ?xs None 2 = (Ref 1, Ref 2, ?s3)"
    "normalize host_accept [TupleCell ?ys] (Ref 0) ?ys None 2 = (Ref 1, Ref 2, ?t3)"
    by (simp_all add: host_accept_def example_host_def normalize_def alloc_def new_kwds_def exact_dict_def cell_at_def
        set_out_def PyTuple_GetSlice_def PyDict_SetItemString_def Let_def numeral_3_eq_3)
  have c: "map call_kwds (calls_of (PyUFunc_CheckOverride host_accept [TupleCell ?xs]
      (Obj 4) ''__call__'' (Ref 0) None 2)) = [Ref 2]"
    by (simp add: PyUFunc_CheckOverride_def tuple_items_def cell_at_def normalize_def
        alloc_def new_kwds_def exact_dict_def set_out_def PyTuple_GetSlice_def
        PyDict_SetItemString_def call_loop.simps subtype_instance_def Let_def
        calls_of_def host_accept_def example_host_def)
  from C6_out_entry [OF t(1) l(1) d(1) m(1) n(1), of "Obj 4" "''__call__''"]
  have 1: "dict_get ?s3 (Ref 2) ''out'' = Some (?xs ! 2)"
    by simp
  from C6_out_entry [OF t(2) l(2) d(2) m(2) n(2), of "Obj 4" "''__call__''"]
  have 2: "\<exists>r. dict_get ?t3 (Ref 2) ''out'' = Some r \<and> tuple_items ?t3 r = Some [Obj 7, Obj 8]"
    by simp
  from t l d m n c 1 2 show ?thesis
    by (intro conjI)
qed

subsection \<open>C7: each candidate is called at most once\<close>

text \<open>
  C7. The positions of the calls made are distinct: no operand of \<open>args\<close> (an item at
  its position) has its override called twice. When the candidates are \<open>A\<close> and then
  \<open>B\<close>, \<open>B\<close> is not a subclass instance relative to \<open>A\<close>, the call of \<open>A\<close> declines and
  the call of \<open>B\<close> returns another value \<open>r\<close>, then the calls are \<open>A\<close>, \<open>B\<close> in that
  order and the result is \<open>r\<close>.
\<close>

theorem C7_each_candidate_called_once:
  "distinct (positions (calls_of (PyUFunc_CheckOverride h s ufunc meth args kwds nin))) \<and>
   (\<forall>xs A a B b fA fB na nk s3 r.
      tuple_items s args = Some xs \<and> length xs \<le> NPY_MAXARGS h \<and>
      discover h 0 xs = [(Some A, a), (Some B, b)] \<and>
      \<not> subtype_instance h B A \<and>
      PyObject_GetAttrString h A = Inr fA \<and> PyObject_GetAttrString h B = Inr fB \<and>
      normalize h s args xs kwds nin = (na, nk, s3) \<and>
      PyObject_Call h s3 fA
        \<lparr>oa_ufunc = ufunc, oa_method = meth, oa_pos = a, oa_inputs = na\<rparr> nk =
        Inr (Py_NotImplemented h) \<and>
      PyObject_Call h s3 fB
        \<lparr>oa_ufunc = ufunc, oa_method = meth, oa_pos = b, oa_inputs = na\<rparr> nk = Inr r \<and>
      r \<noteq> Py_NotImplemented h \<longrightarrow>
      outcome_of (PyUFunc_CheckOverride h s ufunc meth args kwds nin) = Result r \<and>
      map call_obj (calls_of (PyUFunc_CheckOverride h s ufunc meth args kwds nin)) = [A, B] \<and>
      positions (calls_of (PyUFunc_CheckOverride h s ufunc meth args kwds nin)) = [a, b])"
proof (rule conjI)
  show "distinct (positions (calls_of (PyUFunc_CheckOverride h s ufunc meth args kwds nin)))"
  proof (cases rule: CheckOverride_cases [of s args h ufunc meth kwds nin])
    case (loop xs na nk s3 out tr)
    from call_loop_positions [OF loop(5) discover_distinct] loop(6) show ?thesis
      by (simp add: calls_of_def)
  qed (simp_all add: calls_of_def positions_def)
next
  show "\<forall>xs A a B b fA fB na nk s3 r.
      tuple_items s args = Some xs \<and> length xs \<le> NPY_MAXARGS h \<and>
      discover h 0 xs = [(Some A, a), (Some B, b)] \<and>
      \<not> subtype_instance h B A \<and>
      PyObject_GetAttrString h A = Inr fA \<and> PyObject_GetAttrString h B = Inr fB \<and>
      normalize h s args xs kwds nin = (na, nk, s3) \<and>
      PyObject_Call h s3 fA
        \<lparr>oa_ufunc = ufunc, oa_method = meth, oa_pos = a, oa_inputs = na\<rparr> nk =
        Inr (Py_NotImplemented h) \<and>
      PyObject_Call h s3 fB
        \<lparr>oa_ufunc = ufunc, oa_method = meth, oa_pos = b, oa_inputs = na\<rparr> nk = Inr r \<and>
      r \<noteq> Py_NotImplemented h \<longrightarrow>
      outcome_of (PyUFunc_CheckOverride h s ufunc meth args kwds nin) = Result r \<and>
      map call_obj (calls_of (PyUFunc_CheckOverride h s ufunc meth args kwds nin)) = [A, B] \<and>
      positions (calls_of (PyUFunc_CheckOverride h s ufunc meth args kwds nin)) = [a, b]"
  proof (intro allI impI)
    fix xs A a B b fA fB na nk s3 r
    assume hyp: "tuple_items s args = Some xs \<and> length xs \<le> NPY_MAXARGS h \<and>
      discover h 0 xs = [(Some A, a), (Some B, b)] \<and>
      \<not> subtype_instance h B A \<and>
      PyObject_GetAttrString h A = Inr fA \<and> PyObject_GetAttrString h B = Inr fB \<and>
      normalize h s args xs kwds nin = (na, nk, s3) \<and>
      PyObject_Call h s3 fA
        \<lparr>oa_ufunc = ufunc, oa_method = meth, oa_pos = a, oa_inputs = na\<rparr> nk =
        Inr (Py_NotImplemented h) \<and>
      PyObject_Call h s3 fB
        \<lparr>oa_ufunc = ufunc, oa_method = meth, oa_pos = b, oa_inputs = na\<rparr> nk = Inr r \<and>
      r \<noteq> Py_NotImplemented h"
    let ?cA = "\<lparr>call_obj = A, call_func = fA,
                call_args = \<lparr>oa_ufunc = ufunc, oa_method = meth, oa_pos = a, oa_inputs = na\<rparr>,
                call_kwds = nk\<rparr>"
    let ?cB = "\<lparr>call_obj = B, call_func = fB,
                call_args = \<lparr>oa_ufunc = ufunc, oa_method = meth, oa_pos = b, oa_inputs = na\<rparr>,
                call_kwds = nk\<rparr>"
    have second: "call_loop h s3 ufunc meth na nk [(None, a), (Some B, b)] = (Result r, [?cB])"
      using hyp
      by (simp add: call_loop.simps [of _ _ _ _ _ _ "[(None, a), (Some B, b)]"])
    have first: "call_loop h s3 ufunc meth na nk [(Some A, a), (Some B, b)] =
        (Result r, [?cA, ?cB])"
      using hyp second
      by (simp add: call_loop.simps [of _ _ _ _ _ _ "[(Some A, a), (Some B, b)]"])
    with hyp have "PyUFunc_CheckOverride h s ufunc meth args kwds nin =
        (Result r, [?cA, ?cB], s3)"
      by (simp add: PyUFunc_CheckOverride_def)
    then show "outcome_of (PyUFunc_CheckOverride h s ufunc meth args kwds nin) = Result r \<and>
      map call_obj (calls_of (PyUFunc_CheckOverride h s ufunc meth args kwds nin)) = [A, B] \<and>
      positions (calls_of (PyUFunc_CheckOverride h s ufunc meth args kwds nin)) = [a, b]"
      by (simp add: outcome_of_def calls_of_def positions_def)
  qed
qed

text \<open>
  In \<open>host_turns\<close> with \<open>args = (Obj 1, Obj 0, Obj 2)\<close>: \<open>Obj 1\<close> declines, \<open>Obj 2\<close>
  returns \<open>Obj 50\<close>.
\<close>

theorem C7_each_candidate_called_once_witness:
  "tuple_items [TupleCell [Obj 1, Obj 0, Obj 2]] (Ref 0) = Some [Obj 1, Obj 0, Obj 2] \<and>
   length [Obj 1, Obj 0, Obj 2] \<le> NPY_MAXARGS host_turns \<and>
   discover host_turns 0 [Obj 1, Obj 0, Obj 2] = [(Some (Obj 1), 0), (Some (Obj 2), 2)] \<and>
   \<not> subtype_instance host_turns (Obj 2) (Obj 1) \<and>
   PyObject_GetAttrString host_turns (Obj 1) = Inr (Obj 21) \<and>
   PyObject_GetAttrString host_turns (Obj 2) = Inr (Obj 22) \<and>
   normalize host_turns [TupleCell [Obj 1, Obj 0, Obj 2]] (Ref 0) [Obj 1, Obj 0, Obj 2] None 3 =
     (Ref 0, Ref 1,
      [TupleCell [Obj 1, Obj 0, Obj 2], DictCell Map.empty]) \<and>
   PyObject_Call host_turns
     [TupleCell [Obj 1, Obj 0, Obj 2], DictCell Map.empty]
     (Obj 21) \<lparr>oa_ufunc = Obj 4, oa_method = ''__call__'', oa_pos = 0, oa_inputs = Ref 0\<rparr>
     (Ref 1) = Inr (Py_NotImplemented host_turns) \<and>
   PyObject_Call host_turns
     [TupleCell [Obj 1, Obj 0, Obj 2], DictCell Map.empty]
     (Obj 22) \<lparr>oa_ufunc = Obj 4, oa_method = ''__call__'', oa_pos = 2, oa_inputs = Ref 0\<rparr>
     (Ref 1) = Inr (Obj 50) \<and>
   Obj 50 \<noteq> Py_NotImplemented host_turns \<and>
   outcome_of (PyUFunc_CheckOverride host_turns [TupleCell [Obj 1, Obj 0, Obj 2]] (Obj 4)
      ''__call__'' (Ref 0) None 3) = Result (Obj 50) \<and>
   map call_obj (calls_of (PyUFunc_CheckOverride host_turns [TupleCell [Obj 1, Obj 0, Obj 2]]
      (Obj 4) ''__call__'' (Ref 0) None 3)) = [Obj 1, Obj 2] \<and>
   positions (calls_of (PyUFunc_CheckOverride host_turns [TupleCell [Obj 1, Obj 0, Obj 2]]
      (Obj 4) ''__call__'' (Ref 0) None 3)) = [0, 2] \<and>
   distinct (positions (calls_of (PyUFunc_CheckOverride host_turns
      [TupleCell [Obj 1, Obj 0, Obj 2]] (Obj 4) ''__call__'' (Ref 0) None 3)))"
proof -
  let ?xs = "[Obj 1, Obj 0, Obj 2]"
  let ?s3 = "[TupleCell ?xs, DictCell Map.empty]"
  have hyp: "tuple_items [TupleCell ?xs] (Ref 0) = Some ?xs \<and>
      length ?xs \<le> NPY_MAXARGS host_turns \<and>
      discover host_turns 0 ?xs = [(Some (Obj 1), 0), (Some (Obj 2), 2)] \<and>
      \<not> subtype_instance host_turns (Obj 2) (Obj 1) \<and>
      PyObject_GetAttrString host_turns (Obj 1) = Inr (Obj 21) \<and>
      PyObject_GetAttrString host_turns (Obj 2) = Inr (Obj 22) \<and>
      normalize host_turns [TupleCell ?xs] (Ref 0) ?xs None 3 = (Ref 0, Ref 1, ?s3) \<and>
      PyObject_Call host_turns ?s3 (Obj 21)
        \<lparr>oa_ufunc = Obj 4, oa_method = ''__call__'', oa_pos = 0, oa_inputs = Ref 0\<rparr> (Ref 1) =
        Inr (Py_NotImplemented host_turns) \<and>
      PyObject_Call host_turns ?s3 (Obj 22)
        \<lparr>oa_ufunc = Obj 4, oa_method = ''__call__'', oa_pos = 2, oa_inputs = Ref 0\<rparr> (Ref 1) =
        Inr (Obj 50) \<and>
      Obj 50 \<noteq> Py_NotImplemented host_turns"
    by (simp add: tuple_items_def cell_at_def subtype_instance_def normalize_def alloc_def new_kwds_def exact_dict_def cell_at_def
        set_out_def PyTuple_GetSlice_def PyDict_SetItemString_def Let_def
        host_turns_def example_host_def)
  note claim = C7_each_candidate_called_once [of host_turns "[TupleCell ?xs]" "Obj 4"
      "''__call__''" "Ref 0" None 3]
  from claim [THEN conjunct2, rule_format, OF hyp]
  have r: "outcome_of (PyUFunc_CheckOverride host_turns [TupleCell ?xs] (Obj 4)
        ''__call__'' (Ref 0) None 3) = Result (Obj 50) \<and>
      map call_obj (calls_of (PyUFunc_CheckOverride host_turns [TupleCell ?xs]
        (Obj 4) ''__call__'' (Ref 0) None 3)) = [Obj 1, Obj 2] \<and>
      positions (calls_of (PyUFunc_CheckOverride host_turns [TupleCell ?xs]
        (Obj 4) ''__call__'' (Ref 0) None 3)) = [0, 2]" .
  from hyp r claim [THEN conjunct1] show ?thesis
    by (intro conjI) (elim conjE, assumption)+
qed

text \<open>
  An object that stands at two positions of \<open>args\<close> is two operands: when it declines,
  its attribute is called once for each position.
\<close>

lemma same_object_at_two_positions:
  "positions (calls_of (PyUFunc_CheckOverride host_turns [TupleCell [Obj 1, Obj 1]] (Obj 4)
      ''__call__'' (Ref 0) None 2)) = [0, 1] \<and>
   map call_obj (calls_of (PyUFunc_CheckOverride host_turns [TupleCell [Obj 1, Obj 1]]
      (Obj 4) ''__call__'' (Ref 0) None 2)) = [Obj 1, Obj 1] \<and>
   outcome_of (PyUFunc_CheckOverride host_turns [TupleCell [Obj 1, Obj 1]] (Obj 4)
      ''__call__'' (Ref 0) None 2) = Failure type_error_not_implemented"
  by (simp add: PyUFunc_CheckOverride_def tuple_items_def cell_at_def normalize_def
      alloc_def new_kwds_def exact_dict_def set_out_def PyTuple_GetSlice_def
      call_loop.simps subtype_instance_def Let_def outcome_of_def calls_of_def positions_def
      host_turns_def example_host_def)

subsection \<open>C8: an exception ends the dispatch\<close>

text \<open>
  C8. If a call made raised \<open>e\<close>, it is the last call made and the function fails with
  \<open>e\<close>: no other candidate is tried afterwards.
\<close>

theorem C8_raise_stops_dispatch:
  assumes "i < length (calls_of (PyUFunc_CheckOverride h s ufunc meth args kwds nin))"
    and "call_result h (store_of (PyUFunc_CheckOverride h s ufunc meth args kwds nin))
           (calls_of (PyUFunc_CheckOverride h s ufunc meth args kwds nin) ! i) = Inl e"
  shows "outcome_of (PyUFunc_CheckOverride h s ufunc meth args kwds nin) = Failure e \<and>
         Suc i = length (calls_of (PyUFunc_CheckOverride h s ufunc meth args kwds nin))"
proof (cases rule: CheckOverride_cases [of s args h ufunc meth kwds nin])
  case non_tuple
  with assms(1) show ?thesis by (simp add: calls_of_def)
next
  case (too_many xs)
  with assms(1) show ?thesis by (simp add: calls_of_def)
next
  case (no_override xs)
  with assms(1) show ?thesis by (simp add: calls_of_def)
next
  case (loop xs na nk s3 out tr)
  from assms loop(6) have "i < length tr" "call_result h s3 (tr ! i) = Inl e"
    by (simp_all add: calls_of_def store_of_def)
  from call_loop_raise_is_last [OF loop(5) this] loop(6) show ?thesis
    by (simp add: calls_of_def outcome_of_def)
qed

text \<open>
  In \<open>host_raise\<close> with \<open>args = (Obj 1, Obj 2)\<close> the call of \<open>Obj 1\<close> raises and
  \<open>Obj 2\<close>, whose call would return \<open>Obj 50\<close>, is not tried.
\<close>

theorem C8_raise_stops_dispatch_witness:
  "calls_of (PyUFunc_CheckOverride host_raise [TupleCell [Obj 1, Obj 2]] (Obj 4) ''__call__''
      (Ref 0) None 2) =
     [\<lparr>call_obj = Obj 1, call_func = Obj 21,
       call_args = \<lparr>oa_ufunc = Obj 4, oa_method = ''__call__'', oa_pos = 0,
                     oa_inputs = Ref 0\<rparr>,
       call_kwds = Ref 1\<rparr>] \<and>
   call_result host_raise
     (store_of (PyUFunc_CheckOverride host_raise [TupleCell [Obj 1, Obj 2]] (Obj 4)
        ''__call__'' (Ref 0) None 2))
     (calls_of (PyUFunc_CheckOverride host_raise [TupleCell [Obj 1, Obj 2]] (Obj 4)
        ''__call__'' (Ref 0) None 2) ! 0) = Inl (Raised 7) \<and>
   candidate host_raise (Obj 2) \<and>
   PyObject_GetAttrString host_raise (Obj 2) = Inr (Obj 22) \<and>
   PyObject_Call host_raise
     (store_of (PyUFunc_CheckOverride host_raise [TupleCell [Obj 1, Obj 2]] (Obj 4)
        ''__call__'' (Ref 0) None 2))
     (Obj 22) \<lparr>oa_ufunc = Obj 4, oa_method = ''__call__'', oa_pos = 1, oa_inputs = Ref 0\<rparr>
     (Ref 1) = Inr (Obj 50) \<and>
   outcome_of (PyUFunc_CheckOverride host_raise [TupleCell [Obj 1, Obj 2]] (Obj 4)
      ''__call__'' (Ref 0) None 2) = Failure (Raised 7) \<and>
   Suc 0 = length (calls_of (PyUFunc_CheckOverride host_raise [TupleCell [Obj 1, Obj 2]]
      (Obj 4) ''__call__'' (Ref 0) None 2))"
proof -
  have c: "calls_of (PyUFunc_CheckOverride host_raise [TupleCell [Obj 1, Obj 2]] (Obj 4)
      ''__call__'' (Ref 0) None 2) =
     [\<lparr>call_obj = Obj 1, call_func = Obj 21,
       call_args = \<lparr>oa_ufunc = Obj 4, oa_method = ''__call__'', oa_pos = 0,
                     oa_inputs = Ref 0\<rparr>,
       call_kwds = Ref 1\<rparr>]"
    by (simp add: PyUFunc_CheckOverride_def tuple_items_def cell_at_def normalize_def
        alloc_def new_kwds_def exact_dict_def set_out_def PyTuple_GetSlice_def
        PyDict_SetItemString_def call_loop.simps subtype_instance_def Let_def
        calls_of_def host_raise_def example_host_def)
  then have i: "0 < length (calls_of (PyUFunc_CheckOverride host_raise
      [TupleCell [Obj 1, Obj 2]] (Obj 4) ''__call__'' (Ref 0) None 2))"
    by simp
  have e: "call_result host_raise
     (store_of (PyUFunc_CheckOverride host_raise [TupleCell [Obj 1, Obj 2]] (Obj 4)
        ''__call__'' (Ref 0) None 2))
     (calls_of (PyUFunc_CheckOverride host_raise [TupleCell [Obj 1, Obj 2]] (Obj 4)
        ''__call__'' (Ref 0) None 2) ! 0) = Inl (Raised 7)"
    unfolding c by (simp add: call_result_def host_raise_def example_host_def)
  have o: "candidate host_raise (Obj 2) \<and>
     PyObject_GetAttrString host_raise (Obj 2) = Inr (Obj 22) \<and>
     PyObject_Call host_raise
       (store_of (PyUFunc_CheckOverride host_raise [TupleCell [Obj 1, Obj 2]] (Obj 4)
          ''__call__'' (Ref 0) None 2))
       (Obj 22) \<lparr>oa_ufunc = Obj 4, oa_method = ''__call__'', oa_pos = 1, oa_inputs = Ref 0\<rparr>
       (Ref 1) = Inr (Obj 50)"
    by (simp add: candidate_def host_raise_def example_host_def)
  from C8_raise_stops_dispatch [OF i e] c e o show ?thesis
    by (intro conjI) (elim conjE, assumption)+
qed

subsection \<open>C9: the keywords handed to the overrides\<close>

text \<open>
  C9, as amended. When there is a candidate and \<open>kwds\<close> is an exact dictionary, every
  call made gets a new dictionary that has every entry of \<open>kwds\<close> under a key other
  than \<^verbatim>\<open>"out"\<close>, and the \<^verbatim>\<open>"out"\<close> entry of \<open>kwds\<close> too when \<open>args\<close> has no more than
  \<open>nin\<close> items.
\<close>

theorem C9_keywords_copied:
  assumes "tuple_items s args = Some xs"
    and "length xs \<le> NPY_MAXARGS h" and "\<exists>x\<in>set xs. candidate h x"
    and "exact_dict s kwds = Some d"
    and "normalize h s args xs kwds nin = (na, nk, s3)"
  shows "store_of (PyUFunc_CheckOverride h s ufunc meth args kwds nin) = s3 \<and>
         (\<forall>c\<in>set (calls_of (PyUFunc_CheckOverride h s ufunc meth args kwds nin)).
            call_kwds c = nk) \<and>
         Some nk \<noteq> kwds \<and>
         (\<forall>k. k \<noteq> ''out'' \<or> int (length xs) \<le> nin \<longrightarrow> dict_get s3 nk k = d k)"
proof -
  from assms(3) have cand: "discover h 0 xs \<noteq> []"
    by (simp add: discover_empty)
  from assms(4) have kc: "kwds_copy s kwds = d"
    by (simp add: kwds_copy_def)
  from assms(4) obtain a where "kwds = Some (Ref a)" "a < length s"
    by (auto simp: exact_dict_def cell_at_def split: option.splits ptr.splits if_splits)
  moreover from normalize_kwds_new [OF assms(5)] obtain b where "nk = Ref b" "length s \<le> b"
    by blast
  ultimately have ne: "Some nk \<noteq> kwds"
    by simp
  have "dict_get s3 nk k = d k" if "k \<noteq> ''out'' \<or> int (length xs) \<le> nin" for k
    using dict_get_normal_kwds [OF assms(5) that] kc by simp
  with ne calls_get_normal_kwds [OF assms(1,5,2) cand] show ?thesis
    by blast
qed

text \<open>
  The keywords of \<open>store_kw\<close> with \<open>args = (Obj 1, Obj 7)\<close>: \<^verbatim>\<open>"where"\<close> is kept with
  \<open>nin = 1\<close>, and \<^verbatim>\<open>"out"\<close> is kept with \<open>nin = 2\<close>.
\<close>

theorem C9_keywords_copied_witness:
  "tuple_items store_kw (Ref 0) = Some [Obj 1, Obj 7] \<and>
   length [Obj 1, Obj 7] \<le> NPY_MAXARGS host_accept \<and>
   (\<exists>x\<in>set [Obj 1, Obj 7]. candidate host_accept x) \<and>
   exact_dict store_kw (Some (Ref 1)) = Some [''where'' \<mapsto> Obj 6, ''out'' \<mapsto> Obj 8] \<and>
   normalize host_accept store_kw (Ref 0) [Obj 1, Obj 7] (Some (Ref 1)) 1 =
     (Ref 2, Ref 3,
      store_kw @ [TupleCell [Obj 1], DictCell [''where'' \<mapsto> Obj 6, ''out'' \<mapsto> Obj 7]]) \<and>
   dict_get (store_kw @ [TupleCell [Obj 1], DictCell [''where'' \<mapsto> Obj 6, ''out'' \<mapsto> Obj 7]])
     (Ref 3) ''where'' = Some (Obj 6) \<and>
   normalize host_accept store_kw (Ref 0) [Obj 1, Obj 7] (Some (Ref 1)) 2 =
     (Ref 0, Ref 2,
      store_kw @ [DictCell [''where'' \<mapsto> Obj 6, ''out'' \<mapsto> Obj 8]]) \<and>
   int (length [Obj 1, Obj 7]) \<le> 2 \<and>
   dict_get (store_kw @ [DictCell [''where'' \<mapsto> Obj 6, ''out'' \<mapsto> Obj 8]])
     (Ref 2) ''out'' = Some (Obj 8) \<and>
   map call_kwds (calls_of (PyUFunc_CheckOverride host_accept store_kw (Obj 4) ''__call__''
      (Ref 0) (Some (Ref 1)) 2)) = [Ref 2]"
proof -
  let ?xs = "[Obj 1, Obj 7]"
  let ?d = "[''where'' \<mapsto> Obj 6, ''out'' \<mapsto> Obj 8]"
  let ?s3 = "store_kw @ [TupleCell [Obj 1], DictCell [''where'' \<mapsto> Obj 6, ''out'' \<mapsto> Obj 7]]"
  let ?t3 = "store_kw @ [DictCell ?d]"
  have t: "tuple_items store_kw (Ref 0) = Some ?xs"
    by (simp add: store_kw_def tuple_items_def cell_at_def)
  have l: "length ?xs \<le> NPY_MAXARGS host_accept"
    by (simp add: host_accept_def example_host_def)
  have d: "\<exists>x\<in>set ?xs. candidate host_accept x"
    by (simp add: candidate_def host_accept_def example_host_def)
  have e: "exact_dict store_kw (Some (Ref 1)) = Some ?d"
    by (simp add: store_kw_def exact_dict_def cell_at_def)
  have n: "normalize host_accept store_kw (Ref 0) ?xs (Some (Ref 1)) 1 = (Ref 2, Ref 3, ?s3)"
    "normalize host_accept store_kw (Ref 0) ?xs (Some (Ref 1)) 2 = (Ref 0, Ref 2, ?t3)"
    by (simp_all add: store_kw_def host_accept_def example_host_def normalize_def alloc_def new_kwds_def exact_dict_def cell_at_def
        set_out_def PyTuple_GetSlice_def PyDict_SetItemString_def Let_def)
  have m: "int (length ?xs) \<le> 2"
    by simp
  have c: "map call_kwds (calls_of (PyUFunc_CheckOverride host_accept store_kw (Obj 4)
      ''__call__'' (Ref 0) (Some (Ref 1)) 2)) = [Ref 2]"
    by (simp add: PyUFunc_CheckOverride_def tuple_items_def cell_at_def normalize_def
        alloc_def new_kwds_def exact_dict_def set_out_def PyTuple_GetSlice_def
        PyDict_SetItemString_def call_loop.simps subtype_instance_def Let_def
        calls_of_def store_kw_def host_accept_def example_host_def)
  from C9_keywords_copied [OF t l d e n(1), of "Obj 4" "''__call__''"]
  have "dict_get ?s3 (Ref 3) ''where'' = ?d ''where''"
    by simp
  then have 1: "dict_get ?s3 (Ref 3) ''where'' = Some (Obj 6)"
    by simp
  from C9_keywords_copied [OF t l d e n(2), of "Obj 4" "''__call__''"] m
  have "dict_get ?t3 (Ref 2) ''out'' = ?d ''out''"
    by blast
  then have 2: "dict_get ?t3 (Ref 2) ''out'' = Some (Obj 8)"
    by simp
  from t l d e n m c 1 2 show ?thesis
    by (intro conjI)
qed

text \<open>
  C9 as stated fails for the key \<^verbatim>\<open>"out"\<close>: with \<open>nin = 1\<close> the caller's entry
  \<^verbatim>\<open>"out": Obj 8\<close> is replaced by the argument \<open>Obj 7\<close> in the dictionary the override
  gets.
\<close>

theorem C9_counterexample:
  "tuple_items store_kw (Ref 0) = Some [Obj 1, Obj 7] \<and>
   discover host_accept 0 [Obj 1, Obj 7] = [(Some (Obj 1), 0)] \<and>
   dict_get store_kw (Ref 1) ''out'' = Some (Obj 8) \<and>
   calls_of (PyUFunc_CheckOverride host_accept store_kw (Obj 4) ''__call__'' (Ref 0)
      (Some (Ref 1)) 1) =
     [\<lparr>call_obj = Obj 1, call_func = Obj 21,
       call_args = \<lparr>oa_ufunc = Obj 4, oa_method = ''__call__'', oa_pos = 0,
                     oa_inputs = Ref 2\<rparr>,
       call_kwds = Ref 3\<rparr>] \<and>
   dict_get (store_of (PyUFunc_CheckOverride host_accept store_kw (Obj 4) ''__call__'' (Ref 0)
      (Some (Ref 1)) 1)) (Ref 3) ''out'' = Some (Obj 7)"
  by (simp add: PyUFunc_CheckOverride_def tuple_items_def cell_at_def normalize_def
        alloc_def new_kwds_def exact_dict_def set_out_def PyTuple_GetSlice_def
        PyDict_SetItemString_def call_loop.simps subtype_instance_def Let_def
        calls_of_def store_of_def dict_get_def store_kw_def host_accept_def example_host_def)

subsection \<open>C10: the caller's arguments are left as they are\<close>




end
